theory Spec2Isabelle
  imports Complex_Main
begin

section \<open>Host timers\<close>

text \<open>
  The hooks of the viewer keep their timers in the JavaScript host: \<open>setTimeout\<close> returns a
  fresh positive handle and remembers the callback with its due time, \<open>clearTimeout\<close> forgets
  the timer with the given handle (and does nothing for a handle that is no longer pending).
  Every callback that \<open>useDisplayLevel\<close> hands to \<open>setTimeout\<close> has the form
  \<open>() => setDisplayLevel(k)\<close>, so a pending timer is its handle, its due time (milliseconds,
  as \<open>Date.now()\<close> counts them) and the level \<open>k\<close> it sets.
\<close>

datatype timer = Timer (tid: nat) (due: int) (target: nat)

section \<open>useDisplayLevel\<close>

text \<open>
  The state of one mounted \<open>useDisplayLevel\<close>: the React state \<open>displayLevel\<close> (the value
  last given to \<open>setDisplayLevel\<close>, whether or not React has rendered it yet), the six refs
  of the hook, the timers of the host that are still pending, the next handle the host will
  give out, and the event types for which the hook has a listener on \<open>window\<close>. The ref
  \<open>displayLevelRef\<close> is a field of its own: \<open>setDisplayLevel\<close> does not write it, only the
  first effect of the hook does, when React flushes the effects of a later commit.
\<close>

record dl_state =
  displayLevel :: nat
  displayLevelRef :: nat
  mouseIdleTimer :: "nat option"
  level2Timer :: "nat option"
  level3Timer :: "nat option"
  previousSceneIndex :: "int option"
  lastMouseDownLevel :: "nat \<times> int"
  pending :: "timer list"
  nextHandle :: nat
  listeners :: "string list"

definition clearTimeout :: "nat \<Rightarrow> dl_state \<Rightarrow> dl_state" where
  "clearTimeout h s = s\<lparr>pending := filter (\<lambda>x. tid x \<noteq> h) (pending s)\<rparr>"

text \<open>\<open>if (ref.current) { clearTimeout(ref.current); }\<close>: \<open>null\<close> and \<open>0\<close> are falsy.\<close>

definition clearIfSet :: "nat option \<Rightarrow> dl_state \<Rightarrow> dl_state" where
  "clearIfSet r s = (case r of None \<Rightarrow> s | Some h \<Rightarrow> if h = 0 then s else clearTimeout h s)"

text \<open>\<open>setTimeout(() => setDisplayLevel(lvl), delay)\<close> called at time \<open>now\<close>.\<close>

definition setTimeout :: "nat \<Rightarrow> int \<Rightarrow> int \<Rightarrow> dl_state \<Rightarrow> nat \<times> dl_state" where
  "setTimeout lvl delay now s =
     (nextHandle s,
      s\<lparr>pending := pending s @ [Timer (nextHandle s) (now + delay) lvl],
        nextHandle := Suc (nextHandle s)\<rparr>)"

text \<open>The first effect of the hook: \<open>displayLevelRef.current = displayLevel\<close>, run by React
  when it flushes the effects of a commit in which \<open>displayLevel\<close> has changed. Until
  then the handlers read the value the ref had before.\<close>

definition syncDisplayLevelRef :: "dl_state \<Rightarrow> dl_state" where
  "syncDisplayLevelRef s = s\<lparr>displayLevelRef := displayLevel s\<rparr>"

text \<open>The body of the scene change effect, run at time \<open>now\<close> with the prop \<open>sceneIndex\<close>
  (\<open>None\<close> for \<open>undefined\<close> and \<open>null\<close>).\<close>

definition levelToCheck :: "int \<Rightarrow> dl_state \<Rightarrow> nat" where
  "levelToCheck now s =
     (let timeSinceMouseDown = now - snd (lastMouseDownLevel s)
      in if timeSinceMouseDown < 500 then fst (lastMouseDownLevel s) else displayLevelRef s)"

definition sceneChangeEffect :: "int \<Rightarrow> int option \<Rightarrow> dl_state \<Rightarrow> dl_state" where
  "sceneChangeEffect now sceneIndex s =
     (case sceneIndex of
        None \<Rightarrow> s
      | Some idx \<Rightarrow>
          (let s1 =
             (if previousSceneIndex s \<noteq> None \<and> previousSceneIndex s \<noteq> Some idx then
                (if levelToCheck now s = 0 then
                   (let a = s\<lparr>displayLevel := 1\<rparr>;
                        b = clearIfSet (mouseIdleTimer a) a;
                        (h, c) = setTimeout 0 3000 now b
                    in c\<lparr>mouseIdleTimer := Some h\<rparr>)
                 else s)
              else s)
           in s1\<lparr>previousSceneIndex := Some idx\<rparr>))"

definition handleMouseMove :: "int \<Rightarrow> dl_state \<Rightarrow> dl_state" where
  "handleMouseMove now s =
     (let s1 = clearIfSet (mouseIdleTimer s) s;
          s2 = (if displayLevelRef s1 = 0 then
                  (let a = clearIfSet (level2Timer s1) s1;
                       b = clearIfSet (level3Timer a) a;
                       c = b\<lparr>displayLevel := 1\<rparr>;
                       (h2, d) = setTimeout 2 200 now c;
                       e = d\<lparr>level2Timer := Some h2\<rparr>;
                       (h3, f) = setTimeout 3 500 now e
                   in f\<lparr>level3Timer := Some h3\<rparr>)
                else s1);
          (h0, s3) = setTimeout 0 3000 now s2
      in s3\<lparr>mouseIdleTimer := Some h0\<rparr>)"

definition handleMouseDown :: "int \<Rightarrow> dl_state \<Rightarrow> dl_state" where
  "handleMouseDown now s =
     (let s0 = s\<lparr>lastMouseDownLevel := (displayLevelRef s, now)\<rparr>;
          s1 = clearIfSet (mouseIdleTimer s0) s0;
          s2 = (if displayLevelRef s1 = 0 then
                  (let a = clearIfSet (level2Timer s1) s1;
                       b = clearIfSet (level3Timer a) a
                   in b\<lparr>displayLevel := 3\<rparr>)
                else s1);
          (h0, s3) = setTimeout 0 3000 now s2
      in s3\<lparr>mouseIdleTimer := Some h0\<rparr>)"

text \<open>The host runs the callback of the pending timer with handle \<open>h\<close>; a timer that has
  run is no longer pending. The refs keep the handle.\<close>

definition fireTimer :: "nat \<Rightarrow> dl_state \<Rightarrow> dl_state" where
  "fireTimer h s =
     (case find (\<lambda>x. tid x = h) (pending s) of
        None \<Rightarrow> s
      | Some x \<Rightarrow> s\<lparr>displayLevel := target x,
                     pending := filter (\<lambda>y. tid y \<noteq> h) (pending s)\<rparr>)"

text \<open>The hook at mount: the initial values of the state and of the refs, and the mouse
  effect has registered its two listeners. Handles of the host start at 1.\<close>

definition mounted :: dl_state where
  "mounted =
     \<lparr>displayLevel = 0, displayLevelRef = 0, mouseIdleTimer = None, level2Timer = None,
      level3Timer = None, previousSceneIndex = None, lastMouseDownLevel = (0, 0),
      pending = [], nextHandle = 1, listeners = [''mousemove'', ''mousedown'']\<rparr>"

text \<open>The cleanup returned by the mouse effect, run at unmount.\<close>

definition cleanup :: "dl_state \<Rightarrow> dl_state" where
  "cleanup s =
     (let a = s\<lparr>listeners := filter (\<lambda>e. e \<noteq> ''mousemove'') (listeners s)\<rparr>;
          b = a\<lparr>listeners := filter (\<lambda>e. e \<noteq> ''mousedown'') (listeners a)\<rparr>;
          c = clearIfSet (mouseIdleTimer b) b;
          d = clearIfSet (level2Timer c) c
      in clearIfSet (level3Timer d) d)"

text \<open>The deadline a timer ref stands for: the due time of the pending timer whose handle
  the ref holds, if there is one.\<close>

definition deadline :: "nat option \<Rightarrow> dl_state \<Rightarrow> int option" where
  "deadline r s =
     (case r of None \<Rightarrow> None
      | Some h \<Rightarrow> map_option due (find (\<lambda>x. tid x = h) (pending s)))"

definition idleDeadline :: "dl_state \<Rightarrow> int option" where
  "idleDeadline s = deadline (mouseIdleTimer s) s"

definition level2Deadline :: "dl_state \<Rightarrow> int option" where
  "level2Deadline s = deadline (level2Timer s) s"

definition level3Deadline :: "dl_state \<Rightarrow> int option" where
  "level3Deadline s = deadline (level3Timer s) s"

text \<open>
  A flushed state: React has run the effects since the level was last set, so the ref
  mirrors the state. In every state the host has given out increasing positive handles, and
  each pending timer is the one its ref holds: the idle timer sets level 0, the other two
  set the levels 2 and 3.
\<close>

definition owned :: "dl_state \<Rightarrow> timer \<Rightarrow> bool" where
  "owned s x \<longleftrightarrow>
     (target x = 0 \<or> target x = 2 \<or> target x = 3) \<and>
     (mouseIdleTimer s = Some (tid x) \<longleftrightarrow> target x = 0) \<and>
     (level2Timer s = Some (tid x) \<longleftrightarrow> target x = 2) \<and>
     (level3Timer s = Some (tid x) \<longleftrightarrow> target x = 3)"

fun issued :: "nat \<Rightarrow> nat option \<Rightarrow> bool" where
  "issued n None = True"
| "issued n (Some h) = (0 < h \<and> h < n)"

definition dl_wf :: "dl_state \<Rightarrow> bool" where
  "dl_wf s \<longleftrightarrow>
     displayLevelRef s = displayLevel s \<and>
     0 < nextHandle s \<and>
     issued (nextHandle s) (mouseIdleTimer s) \<and>
     issued (nextHandle s) (level2Timer s) \<and>
     issued (nextHandle s) (level3Timer s) \<and>
     distinct (map tid (pending s)) \<and>
     list_all (\<lambda>x. 0 < tid x \<and> tid x < nextHandle s \<and> owned s x) (pending s)"


subsection \<open>Events of a mounted hook\<close>

text \<open>
  What can happen to a mounted hook: the two mouse events, the host running a pending
  timer, React flushing the effects of a commit in which only the level has changed
  (\<open>Flush\<close>: the ref is written), and React flushing the effects of a commit with a scene
  index (\<open>SceneIndex\<close>: the ref is written, then the scene change effect runs, in the order
  in which the hook declares the two effects). The host runs a timer only when it is due,
  and the timers in the order of their due times. Nothing makes React flush between two
  events: a handler may read a ref that is older than the level. A run is a list of events
  with their times; the clock never goes back.
\<close>

datatype event = PointerMove | PointerDown | SceneIndex "int option" | TimerFires nat | Flush

fun enabled :: "int \<Rightarrow> event \<Rightarrow> dl_state \<Rightarrow> bool" where
  "enabled now PointerMove s = (''mousemove'' \<in> set (listeners s))"
| "enabled now PointerDown s = (''mousedown'' \<in> set (listeners s))"
| "enabled now (SceneIndex i) s = True"
| "enabled now (TimerFires h) s =
     (case find (\<lambda>x. tid x = h) (pending s) of
        None \<Rightarrow> False
      | Some x \<Rightarrow> due x \<le> now \<and> list_all (\<lambda>y. due x \<le> due y) (pending s))"
| "enabled now Flush s = True"

fun dispatch :: "int \<Rightarrow> event \<Rightarrow> dl_state \<Rightarrow> dl_state" where
  "dispatch now PointerMove s = handleMouseMove now s"
| "dispatch now PointerDown s = handleMouseDown now s"
| "dispatch now (SceneIndex i) s = sceneChangeEffect now i (syncDisplayLevelRef s)"
| "dispatch now (TimerFires h) s = fireTimer h s"
| "dispatch now Flush s = syncDisplayLevelRef s"

fun run :: "int \<Rightarrow> dl_state \<Rightarrow> (int \<times> event) list \<Rightarrow> (int \<times> dl_state) option" where
  "run t s [] = Some (t, s)"
| "run t s ((t', e) # es) =
     (if t \<le> t' \<and> enabled t' e s then run t' (dispatch t' e s) es else None)"

text \<open>A mouse event finds the ref flushed; and a run in which every mouse event does.\<close>

fun flushed :: "event \<Rightarrow> dl_state \<Rightarrow> bool" where
  "flushed PointerMove s = (displayLevelRef s = displayLevel s)"
| "flushed PointerDown s = (displayLevelRef s = displayLevel s)"
| "flushed e s = True"

fun in_step :: "dl_state \<Rightarrow> (int \<times> event) list \<Rightarrow> bool" where
  "in_step s [] = True"
| "in_step s ((t, e) # es) = (flushed e s \<and> in_step (dispatch t e s) es)"


text \<open>
  The shape of the pending timers at each level: nothing is pending at level 0 and an idle
  timer is pending at every other level; the level-2 timer is pending only at level 1,
  together with the level-3 timer that is due after it; the level-3 timer is due before
  the idle timer and, once the level-2 timer has run, the level is 2.
\<close>

definition phases :: "timer list \<Rightarrow> nat \<Rightarrow> bool" where
  "phases p l \<longleftrightarrow>
     (l = 0 \<longrightarrow> p = []) \<and>
     (l \<noteq> 0 \<longrightarrow> (\<exists>x \<in> set p. target x = 0)) \<and>
     (\<forall>x \<in> set p. \<forall>y \<in> set p. target x = 2 \<and> target y = 3 \<longrightarrow> due x < due y) \<and>
     (\<forall>x \<in> set p. \<forall>y \<in> set p. target x = 3 \<and> target y = 0 \<longrightarrow> due x < due y) \<and>
     (\<forall>x \<in> set p. target x = 2 \<longrightarrow> l = 1 \<and> (\<exists>y \<in> set p. target y = 3)) \<and>
     (\<forall>x \<in> set p. target x = 3 \<longrightarrow> l = 2 \<or> (\<exists>y \<in> set p. target y = 2)) \<and>
     ((\<forall>x \<in> set p. target x = 0) \<longrightarrow> l = 0 \<or> l = 1 \<or> l = 3)"

text \<open>A level-3 timer was set at most 500 ms after the last event.\<close>

definition prompt :: "int \<Rightarrow> timer list \<Rightarrow> bool" where
  "prompt t p \<longleftrightarrow> (\<forall>x \<in> set p. target x = 3 \<longrightarrow> due x \<le> t + 500)"

text \<open>A snapshot of level 0 that is less than 500 ms old: the click took the level to 3,
  so only the idle timer is pending and it is due 3000 ms after the click or later.\<close>

definition fresh_click :: "int \<Rightarrow> nat \<times> int \<Rightarrow> timer list \<Rightarrow> nat \<Rightarrow> bool" where
  "fresh_click t c p l \<longleftrightarrow>
     snd c \<le> t \<and>
     (fst c = 0 \<and> t - snd c < 500 \<longrightarrow>
        l \<noteq> 0 \<and> (\<forall>x \<in> set p. target x = 0 \<and> snd c + 3000 \<le> due x))"

definition reveal_inv :: "int \<Rightarrow> dl_state \<Rightarrow> bool" where
  "reveal_inv t s \<longleftrightarrow>
     dl_wf s \<and> phases (pending s) (displayLevel s) \<and> prompt t (pending s) \<and>
     fresh_click t (lastMouseDownLevel s) (pending s) (displayLevel s)"

text \<open>Flushed states of the hook used as concrete inputs below: one that has seen its first
  scene index and is still hidden, one fully revealed by a pointer move whose two
  progression timers have run, one clicked while hidden, and one that has just started
  its reveal.\<close>

definition hidden :: dl_state where
  "hidden = syncDisplayLevelRef (sceneChangeEffect 900 (Some 4) mounted)"

definition revealed :: dl_state where
  "revealed =
     syncDisplayLevelRef (fireTimer 2 (syncDisplayLevelRef (fireTimer 1
       (syncDisplayLevelRef (handleMouseMove 1000 hidden)))))"

definition clicked :: dl_state where
  "clicked = syncDisplayLevelRef (handleMouseDown 2000 hidden)"

definition moved :: dl_state where
  "moved = syncDisplayLevelRef (handleMouseMove 1000 mounted)"

text \<open>The state right after the first pointer move, before React has flushed: the level is
  1 and the ref still holds 0.\<close>

definition stale :: dl_state where
  "stale = handleMouseMove 1000 mounted"

section \<open>useNotification\<close>

text \<open>
  The state of one mounted \<open>useNotification\<close>: the message shown, the ref with the handle
  of the last expiry timer, and the expiry timers of the host that are still pending, each
  with its handle and due time. Every expiry callback is \<open>() => setNotification(null)\<close>.
\<close>

record nt_state =
  notification :: "string option"
  notificationTimer :: "nat option"
  nt_pending :: "(nat \<times> int) list"
  nt_nextHandle :: nat

definition nt_mounted :: nt_state where
  "nt_mounted =
     \<lparr>notification = None, notificationTimer = None, nt_pending = [], nt_nextHandle = 1\<rparr>"

text \<open>\<open>showNotification(message, duration = 2000)\<close> called at time \<open>now\<close>; \<open>None\<close> is the
  omitted second argument.\<close>

definition showNotification :: "int \<Rightarrow> string \<Rightarrow> int option \<Rightarrow> nt_state \<Rightarrow> nt_state" where
  "showNotification now message duration s =
     (let d = (case duration of None \<Rightarrow> 2000 | Some d \<Rightarrow> d);
          a = (case notificationTimer s of
                 None \<Rightarrow> s
               | Some h \<Rightarrow> if h = 0 then s
                           else s\<lparr>nt_pending := filter (\<lambda>x. fst x \<noteq> h) (nt_pending s)\<rparr>);
          b = a\<lparr>notification := Some message\<rparr>;
          h = nt_nextHandle b
      in b\<lparr>nt_pending := nt_pending b @ [(h, now + d)], nt_nextHandle := Suc h,
           notificationTimer := Some h\<rparr>)"

text \<open>The host runs the expiry timer with handle \<open>h\<close>, if it is pending.\<close>

definition expire :: "nat \<Rightarrow> nt_state \<Rightarrow> nt_state" where
  "expire h s =
     (if h \<in> set (map fst (nt_pending s))
      then s\<lparr>notification := None, nt_pending := filter (\<lambda>x. fst x \<noteq> h) (nt_pending s)\<rparr>
      else s)"

text \<open>The hook has no effect and so no cleanup: at unmount React runs nothing of it, and
  the host keeps what is pending.\<close>

definition nt_unmount :: "nt_state \<Rightarrow> nt_state" where
  "nt_unmount s = s"

text \<open>Every pending expiry timer is the one the ref holds.\<close>

definition nt_wf :: "nt_state \<Rightarrow> bool" where
  "nt_wf s \<longleftrightarrow>
     0 < nt_nextHandle s \<and>
     distinct (map fst (nt_pending s)) \<and>
     list_all (\<lambda>x. 0 < fst x \<and> fst x < nt_nextHandle s \<and> notificationTimer s = Some (fst x))
       (nt_pending s)"

text \<open>What can happen to a mounted \<open>useNotification\<close>, each event with its time.\<close>

datatype nt_event = Show string "int option" | Expire nat

fun nt_step :: "int \<Rightarrow> nt_event \<Rightarrow> nt_state \<Rightarrow> nt_state" where
  "nt_step now (Show message duration) s = showNotification now message duration s"
| "nt_step now (Expire h) s = expire h s"

fun nt_run :: "nt_state \<Rightarrow> (int \<times> nt_event) list \<Rightarrow> nt_state" where
  "nt_run s [] = s"
| "nt_run s ((now, e) # es) = nt_run (nt_step now e s) es"

section \<open>useAutoPlay\<close>

text \<open>
  The numbers of the hook (the speed, the times of \<open>Date.now()\<close>, the delay handed to
  \<open>setInterval\<close>) are modelled as reals. An interval of the host is its handle, its period,
  the time of its next tick, and the value of \<open>reverse\<close> its callback has captured;
  \<open>pausedUntil\<close> is a ref, which the callback reads when it runs. \<open>effectCleanup\<close> is the
  handle the cleanup of the last run of the effect will clear, if that run set an interval.
  The callbacks \<open>onNext\<close> and \<open>onPrev\<close> keep their identity from render to render, as the
  ones \<open>App\<close> passes in do.
\<close>

datatype navigation = OnNext | OnPrev

datatype interval = Interval (iid: nat) (period: real) (nextTick: real) (backwards: bool)

record ap_state =
  isPlaying :: bool
  speed :: real
  reverse :: bool
  pausedUntil :: real
  intervals :: "interval list"
  effectCleanup :: "nat option"
  ap_nextHandle :: nat

definition ap_mounted :: ap_state where
  "ap_mounted =
     \<lparr>isPlaying = False, speed = 1, reverse = False, pausedUntil = 0, intervals = [],
      effectCleanup = None, ap_nextHandle = 1\<rparr>"

text \<open>The body of the effect, run at time \<open>now\<close>.\<close>

definition autoPlayEffect :: "real \<Rightarrow> ap_state \<Rightarrow> ap_state" where
  "autoPlayEffect now s =
     (if \<not> isPlaying s then s\<lparr>effectCleanup := None\<rparr>
      else
        (let baseInterval = 2400;
             h = ap_nextHandle s
         in s\<lparr>intervals := intervals s @
                  [Interval h (baseInterval / speed s) (now + baseInterval / speed s) (reverse s)],
              ap_nextHandle := Suc h,
              effectCleanup := Some h\<rparr>))"

text \<open>\<open>() => clearInterval(interval)\<close>, the cleanup of the last run of the effect.\<close>

definition runCleanup :: "ap_state \<Rightarrow> ap_state" where
  "runCleanup s =
     (case effectCleanup s of
        None \<Rightarrow> s
      | Some h \<Rightarrow> s\<lparr>intervals := filter (\<lambda>x. iid x \<noteq> h) (intervals s),
                     effectCleanup := None\<rparr>)"

text \<open>React commits the state \<open>new\<close> after \<open>old\<close>: when one of the dependencies
  \<open>isPlaying\<close>, \<open>speed\<close>, \<open>reverse\<close> has changed it runs the cleanup of the effect and
  then the effect; when none has, it runs neither.\<close>

definition rerender :: "real \<Rightarrow> ap_state \<Rightarrow> ap_state \<Rightarrow> ap_state" where
  "rerender now old new =
     (if isPlaying new = isPlaying old \<and> speed new = speed old \<and> reverse new = reverse old
      then new
      else autoPlayEffect now (runCleanup new))"

definition togglePlay :: "real \<Rightarrow> ap_state \<Rightarrow> ap_state" where
  "togglePlay now s = rerender now s (s\<lparr>isPlaying := \<not> isPlaying s\<rparr>)"

definition toggleReverse :: "real \<Rightarrow> ap_state \<Rightarrow> ap_state" where
  "toggleReverse now s = rerender now s (s\<lparr>reverse := \<not> reverse s\<rparr>)"

definition setSpeed :: "real \<Rightarrow> real \<Rightarrow> ap_state \<Rightarrow> ap_state" where
  "setSpeed now m s = rerender now s (s\<lparr>speed := m\<rparr>)"

definition pause :: "real \<Rightarrow> real \<Rightarrow> ap_state \<Rightarrow> ap_state" where
  "pause now duration s = s\<lparr>pausedUntil := now + duration\<rparr>"

text \<open>The callback of the interval, run at time \<open>now\<close> with the captured \<open>reverse\<close>: which
  of the two callbacks it calls, if any.\<close>

definition tickCallback :: "real \<Rightarrow> bool \<Rightarrow> ap_state \<Rightarrow> navigation option" where
  "tickCallback now captured s =
     (if now < pausedUntil s then None
      else if captured then Some OnPrev else Some OnNext)"

text \<open>The host runs the interval with handle \<open>h\<close> at time \<open>now\<close> and arms it for one
  period later.\<close>

definition tick :: "nat \<Rightarrow> real \<Rightarrow> ap_state \<Rightarrow> navigation option \<times> ap_state" where
  "tick h now s =
     (case find (\<lambda>x. iid x = h) (intervals s) of
        None \<Rightarrow> (None, s)
      | Some x \<Rightarrow>
          (tickCallback now (backwards x) s,
           s\<lparr>intervals := map (\<lambda>y. if iid y = h
                                   then Interval h (period y) (nextTick y + period y) (backwards y)
                                   else y) (intervals s)\<rparr>))"

text \<open>At unmount React runs the cleanup of the last run of the effect.\<close>

definition ap_unmount :: "ap_state \<Rightarrow> ap_state" where
  "ap_unmount s = runCleanup s"

text \<open>Between two events: an interval is pending exactly while playing, it is the one the
  cleanup will clear, and it has the period and the direction of the current state.\<close>

definition ap_wf :: "ap_state \<Rightarrow> bool" where
  "ap_wf s \<longleftrightarrow>
     0 < ap_nextHandle s \<and>
     (isPlaying s \<longleftrightarrow> intervals s \<noteq> []) \<and>
     (\<not> isPlaying s \<longrightarrow> effectCleanup s = None) \<and>
     length (intervals s) \<le> 1 \<and>
     list_all (\<lambda>x. iid x < ap_nextHandle s \<and> effectCleanup s = Some (iid x) \<and>
                   period x = 2400 / speed s \<and> backwards x = reverse s) (intervals s)"

text \<open>The state after \<open>togglePlay\<close> at time 0 on the mounted hook.\<close>

definition playing :: ap_state where
  "playing = togglePlay 0 ap_mounted"

text \<open>What can happen to a mounted \<open>useAutoPlay\<close>, each event with its time.\<close>

datatype ap_event = TogglePlay | ToggleReverse | SetSpeed real | Pause real | Tick nat

fun ap_step :: "real \<Rightarrow> ap_event \<Rightarrow> ap_state \<Rightarrow> ap_state" where
  "ap_step now TogglePlay s = togglePlay now s"
| "ap_step now ToggleReverse s = toggleReverse now s"
| "ap_step now (SetSpeed m) s = setSpeed now m s"
| "ap_step now (Pause d) s = pause now d s"
| "ap_step now (Tick h) s = snd (tick h now s)"

fun ap_run :: "ap_state \<Rightarrow> (real \<times> ap_event) list \<Rightarrow> ap_state" where
  "ap_run s [] = s"
| "ap_run s ((now, e) # es) = ap_run (ap_step now e s) es"

section \<open>useImageContent\<close>

text \<open>
  The two records the backend returns, field by field, and the state of one mounted
  \<open>useImageContent\<close>: the four React states the view reads, the ref \<open>isNavigating\<close>, the
  handlers that are suspended at an \<open>await\<close> (in the order in which they were called), the
  backend commands invoked so far, and what was written with \<open>console.error\<close>.
\<close>

record SceneInfo =
  scene_name :: string
  scene_index :: int
  total_pages :: int
  current_page :: int

record ImageData =
  main_image :: "string option"
  thumbnail_image :: "string option"
  page_index :: int
  image_scene_index :: int
  image_path :: string
  is_preview :: bool

text \<open>Where a handler is suspended: at which \<open>await\<close> of which function.\<close>

datatype direction = Next | Prev

datatype await =
    PageData direction
  | PageInfo direction
  | SceneStep direction
  | SceneImage direction
  | LoadAppDataDir
  | LoadJoin
  | LoadCollection
  | LoadInfo
  | LoadImage

text \<open>How an awaited promise settles: rejected with an error, or fulfilled with a value of
  the type the service function declares.\<close>

datatype response =
    Rejected string
  | Image ImageData
  | Info SceneInfo
  | Path string
  | Void

text \<open>What has become of the promise a handler returned, after one more step.\<close>

datatype outcome = Suspended await | Fulfilled | Threw string

record ic_state =
  imageData :: "ImageData option"
  sceneInfo :: "SceneInfo option"
  loading :: bool
  error :: "string option"
  isNavigating :: bool
  awaiting :: "await list"
  invoked :: "string list"
  consoleErrors :: "string list"

definition ic_initial :: ic_state where
  "ic_initial =
     \<lparr>imageData = None, sceneInfo = None, loading = False, error = None,
      isNavigating = False, awaiting = [], invoked = [], consoleErrors = []\<rparr>"

text \<open>Each handler up to its first \<open>await\<close>. \<open>loadInitialScene\<close> takes the value of
  \<open>import.meta.env.DEV\<close>: the development build goes straight to the backend, the
  production build resolves the path first.\<close>

definition loadInitialScene :: "bool \<Rightarrow> ic_state \<Rightarrow> ic_state" where
  "loadInitialScene dev s =
     (let a = s\<lparr>loading := True, error := None\<rparr>
      in if dev
         then a\<lparr>invoked := invoked a @ [''load_scene_collection''],
                awaiting := awaiting a @ [LoadCollection]\<rparr>
         else a\<lparr>invoked := invoked a @ [''appDataDir''],
                awaiting := awaiting a @ [LoadAppDataDir]\<rparr>)"

definition handleNextPage :: "ic_state \<Rightarrow> ic_state" where
  "handleNextPage s =
     (if isNavigating s then s
      else s\<lparr>isNavigating := True, invoked := invoked s @ [''next_page''],
             awaiting := awaiting s @ [PageData Next]\<rparr>)"

definition handlePrevPage :: "ic_state \<Rightarrow> ic_state" where
  "handlePrevPage s =
     (if isNavigating s then s
      else s\<lparr>isNavigating := True, invoked := invoked s @ [''prev_page''],
             awaiting := awaiting s @ [PageData Prev]\<rparr>)"

definition handleNextScene :: "ic_state \<Rightarrow> ic_state" where
  "handleNextScene s =
     s\<lparr>invoked := invoked s @ [''next_scene''], awaiting := awaiting s @ [SceneStep Next]\<rparr>"

definition handlePrevScene :: "ic_state \<Rightarrow> ic_state" where
  "handlePrevScene s =
     s\<lparr>invoked := invoked s @ [''prev_scene''], awaiting := awaiting s @ [SceneStep Prev]\<rparr>"

text \<open>The messages of the \<open>catch\<close> blocks.\<close>

fun pageFailure :: "direction \<Rightarrow> string" where
  "pageFailure Next = ''Failed to navigate to next page: ''"
| "pageFailure Prev = ''Failed to navigate to previous page: ''"

fun sceneFailure :: "direction \<Rightarrow> string" where
  "sceneFailure Next = ''Failed to navigate to next scene: ''"
| "sceneFailure Prev = ''Failed to navigate to previous scene: ''"

text \<open>The \<open>catch\<close> and \<open>finally\<close> of \<open>loadInitialScene\<close>.\<close>

definition loadFailed :: "string \<Rightarrow> ic_state \<Rightarrow> ic_state" where
  "loadFailed e s =
     s\<lparr>error := Some (''Failed to load scene: '' @ e),
       consoleErrors := consoleErrors s @ [e],
       loading := False\<rparr>"

text \<open>Which settlements the types of the service functions allow at each \<open>await\<close>.\<close>

fun expects :: "await \<Rightarrow> response \<Rightarrow> bool" where
  "expects a (Rejected e) = True"
| "expects (PageData d) (Image i) = True"
| "expects (PageInfo d) (Info i) = True"
| "expects (SceneStep d) (Info i) = True"
| "expects (SceneImage d) (Image i) = True"
| "expects LoadAppDataDir (Path p) = True"
| "expects LoadJoin (Path p) = True"
| "expects LoadCollection Void = True"
| "expects LoadInfo (Info i) = True"
| "expects LoadImage (Image i) = True"
| "expects a r = False"

text \<open>A suspended handler runs on when the promise it awaits settles, up to its next
  \<open>await\<close> or to its end. A settlement the types exclude leaves it suspended.\<close>

fun resume :: "await \<Rightarrow> response \<Rightarrow> ic_state \<Rightarrow> outcome \<times> ic_state" where
  "resume (PageData d) (Image i) s =
     (Suspended (PageInfo d), s\<lparr>imageData := Some i, invoked := invoked s @ [''get_scene_info'']\<rparr>)"
| "resume (PageData d) (Rejected e) s =
     (Fulfilled, s\<lparr>consoleErrors := consoleErrors s @ [pageFailure d @ e], isNavigating := False\<rparr>)"
| "resume (PageInfo d) (Info i) s =
     (Fulfilled, s\<lparr>sceneInfo := Some i, isNavigating := False\<rparr>)"
| "resume (PageInfo d) (Rejected e) s =
     (Fulfilled, s\<lparr>consoleErrors := consoleErrors s @ [pageFailure d @ e], isNavigating := False\<rparr>)"
| "resume (SceneStep d) (Info i) s =
     (Suspended (SceneImage d), s\<lparr>sceneInfo := Some i, invoked := invoked s @ [''get_image'']\<rparr>)"
| "resume (SceneStep d) (Rejected e) s =
     (Fulfilled, s\<lparr>consoleErrors := consoleErrors s @ [sceneFailure d @ e]\<rparr>)"
| "resume (SceneImage d) (Image i) s = (Fulfilled, s\<lparr>imageData := Some i\<rparr>)"
| "resume (SceneImage d) (Rejected e) s =
     (Fulfilled, s\<lparr>consoleErrors := consoleErrors s @ [sceneFailure d @ e]\<rparr>)"
| "resume LoadAppDataDir (Path p) s = (Suspended LoadJoin, s\<lparr>invoked := invoked s @ [''join'']\<rparr>)"
| "resume LoadAppDataDir (Rejected e) s = (Fulfilled, loadFailed e s)"
| "resume LoadJoin (Path p) s =
     (Suspended LoadCollection, s\<lparr>invoked := invoked s @ [''load_scene_collection'']\<rparr>)"
| "resume LoadJoin (Rejected e) s = (Fulfilled, loadFailed e s)"
| "resume LoadCollection Void s =
     (Suspended LoadInfo, s\<lparr>invoked := invoked s @ [''get_scene_info'']\<rparr>)"
| "resume LoadCollection (Rejected e) s = (Fulfilled, loadFailed e s)"
| "resume LoadInfo (Info i) s =
     (Suspended LoadImage, s\<lparr>sceneInfo := Some i, invoked := invoked s @ [''get_image'']\<rparr>)"
| "resume LoadInfo (Rejected e) s = (Fulfilled, loadFailed e s)"
| "resume LoadImage (Image i) s = (Fulfilled, s\<lparr>imageData := Some i, loading := False\<rparr>)"
| "resume LoadImage (Rejected e) s = (Fulfilled, loadFailed e s)"
| "resume a r s = (Suspended a, s)"

text \<open>What the view reads.\<close>

definition ui :: "ic_state \<Rightarrow> ImageData option \<times> SceneInfo option \<times> bool \<times> string option" where
  "ui s = (imageData s, sceneInfo s, loading s, error s)"

text \<open>The events of the hook: a call of one of its functions, and the settling of the
  promise that the \<open>i\<close>-th suspended handler awaits.\<close>

datatype ic_event =
    CallLoadInitialScene bool
  | CallNextPage
  | CallPrevPage
  | CallNextScene
  | CallPrevScene
  | Settle nat response

fun ic_enabled :: "ic_event \<Rightarrow> ic_state \<Rightarrow> bool" where
  "ic_enabled (Settle i r) s = (i < length (awaiting s) \<and> expects (awaiting s ! i) r)"
| "ic_enabled e s = True"

definition settle :: "nat \<Rightarrow> response \<Rightarrow> ic_state \<Rightarrow> ic_state" where
  "settle i r s =
     (case resume (awaiting s ! i) r s of
        (Suspended a, s') \<Rightarrow> s'\<lparr>awaiting := take i (awaiting s) @ a # drop (Suc i) (awaiting s)\<rparr>
      | (_, s') \<Rightarrow> s'\<lparr>awaiting := take i (awaiting s) @ drop (Suc i) (awaiting s)\<rparr>)"

fun ic_step :: "ic_event \<Rightarrow> ic_state \<Rightarrow> ic_state" where
  "ic_step (CallLoadInitialScene dev) s = loadInitialScene dev s"
| "ic_step CallNextPage s = handleNextPage s"
| "ic_step CallPrevPage s = handlePrevPage s"
| "ic_step CallNextScene s = handleNextScene s"
| "ic_step CallPrevScene s = handlePrevScene s"
| "ic_step (Settle i r) s = settle i r s"

fun ic_run :: "ic_state \<Rightarrow> ic_event list \<Rightarrow> ic_state option" where
  "ic_run s [] = Some s"
| "ic_run s (e # es) = (if ic_enabled e s then ic_run (ic_step e s) es else None)"

text \<open>The suspended handlers that are page navigations.\<close>

fun isPageNavigation :: "await \<Rightarrow> bool" where
  "isPageNavigation (PageData d) = True"
| "isPageNavigation (PageInfo d) = True"
| "isPageNavigation a = False"

definition pageNavigations :: "ic_state \<Rightarrow> nat" where
  "pageNavigations s = length (filter isPageNavigation (awaiting s))"

text \<open>Two results of the backend and a state that shows the first, as concrete inputs.\<close>

definition page0 :: ImageData where
  "page0 = \<lparr>main_image = Some ''a'', thumbnail_image = None, page_index = 0,
            image_scene_index = 0, image_path = ''s/0.png'', is_preview = False\<rparr>"

definition page1 :: ImageData where
  "page1 = \<lparr>main_image = Some ''b'', thumbnail_image = None, page_index = 1,
            image_scene_index = 0, image_path = ''s/1.png'', is_preview = False\<rparr>"

definition scene0 :: SceneInfo where
  "scene0 = \<lparr>scene_name = ''s'', scene_index = 0, total_pages = 2, current_page = 0\<rparr>"

definition loaded :: ic_state where
  "loaded =
     \<lparr>imageData = Some page0, sceneInfo = Some scene0, loading = False, error = None,
      isNavigating = False, awaiting = [], invoked = [], consoleErrors = []\<rparr>"

text \<open>The awaits of \<open>loadInitialScene\<close>.\<close>

fun isInitialLoad :: "await \<Rightarrow> bool" where
  "isInitialLoad (PageData d) = False"
| "isInitialLoad (PageInfo d) = False"
| "isInitialLoad (SceneStep d) = False"
| "isInitialLoad (SceneImage d) = False"
| "isInitialLoad a = True"

text \<open>The loaded state with a page navigation in flight.\<close>

definition navigating :: ic_state where
  "navigating = handleNextPage loaded"

text \<open>The ref \<open>isNavigating\<close> is set exactly while one page navigation is suspended.\<close>

definition nav_inv :: "ic_state \<Rightarrow> bool" where
  "nav_inv s \<longleftrightarrow> pageNavigations s = (if isNavigating s then 1 else 0)"

section \<open>Properties of useDisplayLevel\<close>

subsection \<open>Clearing and setting timers\<close>

lemma issued_iff: "issued n r \<longleftrightarrow> (\<forall>h. r = Some h \<longrightarrow> 0 < h \<and> h < n)"
  by (cases r) auto

lemma clearIfSet_fields [simp]:
  "displayLevel (clearIfSet r s) = displayLevel s"
  "displayLevelRef (clearIfSet r s) = displayLevelRef s"
  "mouseIdleTimer (clearIfSet r s) = mouseIdleTimer s"
  "level2Timer (clearIfSet r s) = level2Timer s"
  "level3Timer (clearIfSet r s) = level3Timer s"
  "previousSceneIndex (clearIfSet r s) = previousSceneIndex s"
  "lastMouseDownLevel (clearIfSet r s) = lastMouseDownLevel s"
  "nextHandle (clearIfSet r s) = nextHandle s"
  "listeners (clearIfSet r s) = listeners s"
  by (simp_all add: clearIfSet_def clearTimeout_def split: option.splits)

lemma clearIfSet_eq: "clearIfSet r s = s\<lparr>pending := pending (clearIfSet r s)\<rparr>"
  by (simp add: clearIfSet_def clearTimeout_def split: option.splits)

text \<open>Clearing through a ref that holds exactly the timers of one purpose removes the
  timers of that purpose and no other.\<close>

lemma pending_clearIfSet:
  assumes "\<forall>x \<in> set (pending s). 0 < tid x \<and> (r = Some (tid x) \<longleftrightarrow> target x = k)"
  shows "pending (clearIfSet r s) = filter (\<lambda>x. target x \<noteq> k) (pending s)"
proof (cases r)
  case None
  with assms have "\<forall>x \<in> set (pending s). target x \<noteq> k" by auto
  then show ?thesis using None by (simp add: clearIfSet_def)
next
  case (Some h)
  with assms have *: "\<forall>x \<in> set (pending s). (tid x \<noteq> h) = (target x \<noteq> k)" by auto
  from assms Some have "h = 0 \<Longrightarrow> \<forall>x \<in> set (pending s). target x \<noteq> k" by auto
  with * Some show ?thesis
    by (auto simp: clearIfSet_def clearTimeout_def intro: filter_cong)
qed

lemma wf_issued:
  "dl_wf s \<Longrightarrow> issued (nextHandle s) (mouseIdleTimer s) \<and>
     issued (nextHandle s) (level2Timer s) \<and> issued (nextHandle s) (level3Timer s)"
  by (simp add: dl_wf_def)

lemma wf_owned:
  "dl_wf s \<Longrightarrow> x \<in> set (pending s) \<Longrightarrow> 0 < tid x \<and> tid x < nextHandle s \<and> owned s x"
  by (simp add: dl_wf_def list_all_iff)

lemma wf_fresh: "dl_wf s \<Longrightarrow> \<forall>x \<in> set (filter P (pending s)). tid x \<noteq> nextHandle s"
  using wf_owned [of s] by fastforce

lemma clear_idle:
  assumes "dl_wf s"
  shows "clearIfSet (mouseIdleTimer s) s =
           s\<lparr>pending := filter (\<lambda>x. target x \<noteq> 0) (pending s)\<rparr>"
proof -
  have "pending (clearIfSet (mouseIdleTimer s) s) = filter (\<lambda>x. target x \<noteq> 0) (pending s)"
    using wf_owned [OF assms] by (intro pending_clearIfSet) (auto simp: owned_def)
  then show ?thesis using clearIfSet_eq [of "mouseIdleTimer s" s] by simp
qed

lemma clear_level2:
  assumes "dl_wf s" "set p \<subseteq> set (pending s)"
  shows "clearIfSet (level2Timer s) (s\<lparr>pending := p\<rparr>) =
           s\<lparr>pending := filter (\<lambda>x. target x \<noteq> 2) p\<rparr>"
proof -
  let ?s = "s\<lparr>pending := p\<rparr>"
  have "pending (clearIfSet (level2Timer s) ?s) = filter (\<lambda>x. target x \<noteq> 2) (pending ?s)"
    using wf_owned [OF assms(1)] assms(2) by (intro pending_clearIfSet) (auto simp: owned_def)
  then show ?thesis using clearIfSet_eq [of "level2Timer s" ?s] by simp
qed

lemma clear_level3:
  assumes "dl_wf s" "set p \<subseteq> set (pending s)"
  shows "clearIfSet (level3Timer s) (s\<lparr>pending := p\<rparr>) =
           s\<lparr>pending := filter (\<lambda>x. target x \<noteq> 3) p\<rparr>"
proof -
  let ?s = "s\<lparr>pending := p\<rparr>"
  have "pending (clearIfSet (level3Timer s) ?s) = filter (\<lambda>x. target x \<noteq> 3) (pending ?s)"
    using wf_owned [OF assms(1)] assms(2) by (intro pending_clearIfSet) (auto simp: owned_def)
  then show ?thesis using clearIfSet_eq [of "level3Timer s" ?s] by simp
qed

lemma all_cleared:
  assumes "dl_wf s"
  shows "filter (\<lambda>x. 0 < target x \<and> target x \<noteq> 2 \<and> target x \<noteq> 3) (pending s) = []"
  using wf_owned [OF assms] by (auto simp: owned_def filter_empty_conv)

lemma find_new_timer:
  assumes "\<forall>x \<in> set xs. tid x \<noteq> h"
  shows "find (\<lambda>x. tid x = h) (xs @ [Timer h d k]) = Some (Timer h d k)"
  using assms by (induction xs) auto

lemma find_kept:
  assumes "\<forall>x \<in> set xs. tid x = h \<longrightarrow> 0 < target x" "h \<noteq> n"
  shows "find (\<lambda>x. tid x = h) (filter (\<lambda>x. 0 < target x) xs @ [Timer n d 0]) =
         find (\<lambda>x. tid x = h) xs"
  using assms by (induction xs) auto

lemma fireTimer_absent: "\<forall>x \<in> set (pending s). tid x \<noteq> h \<Longrightarrow> fireTimer h s = s"
  by (simp add: fireTimer_def find_None_iff [THEN iffD2])

text \<open>Rescheduling the idle timer leaves the deadlines of the two progression timers as
  they are.\<close>

lemma deadline_kept:
  assumes "dl_wf s" "r = level2Timer s \<or> r = level3Timer s"
  shows "map_option due (case r of None \<Rightarrow> None | Some h \<Rightarrow>
            find (\<lambda>x. tid x = h)
              (filter (\<lambda>x. target x \<noteq> 0) (pending s) @ [Timer (nextHandle s) d 0]))
         = deadline r s"
proof (cases r)
  case None
  then show ?thesis by (simp add: deadline_def)
next
  case (Some h)
  then have ref: "level2Timer s = Some h \<or> level3Timer s = Some h"
    using assms(2) by auto
  have "h \<noteq> nextHandle s"
    using wf_issued [OF assms(1)] ref by (auto simp: issued_iff)
  moreover have "\<forall>x \<in> set (pending s). tid x = h \<longrightarrow> target x \<noteq> 0"
  proof (intro ballI impI)
    fix x assume "x \<in> set (pending s)" "tid x = h"
    then have "owned s x" "level2Timer s = Some (tid x) \<or> level3Timer s = Some (tid x)"
      using wf_owned [OF assms(1)] ref by auto
    then show "target x \<noteq> 0" unfolding owned_def by fastforce
  qed
  ultimately show ?thesis using Some by (simp add: deadline_def find_kept)
qed


subsection \<open>What each handler returns\<close>

lemma handleMouseMove_hidden:
  assumes "dl_wf s" "displayLevel s = 0"
  shows "handleMouseMove now s =
     s\<lparr>displayLevel := 1,
       mouseIdleTimer := Some (Suc (Suc (nextHandle s))),
       level2Timer := Some (nextHandle s),
       level3Timer := Some (Suc (nextHandle s)),
       pending := [Timer (nextHandle s) (now + 200) 2, Timer (Suc (nextHandle s)) (now + 500) 3,
                   Timer (Suc (Suc (nextHandle s))) (now + 3000) 0],
       nextHandle := Suc (Suc (Suc (nextHandle s)))\<rparr>"
proof -
  have r: "displayLevelRef s = 0" using assms by (simp add: dl_wf_def)
  show ?thesis
    unfolding handleMouseMove_def
    by (simp add: Let_def clear_idle [OF assms(1)] clear_level2 [OF assms(1)]
        clear_level3 [OF assms(1)] all_cleared [OF assms(1)] r setTimeout_def)
qed

lemma handleMouseMove_shown:
  assumes "dl_wf s" "displayLevel s \<noteq> 0"
  shows "handleMouseMove now s =
     s\<lparr>mouseIdleTimer := Some (nextHandle s),
       pending := filter (\<lambda>x. target x \<noteq> 0) (pending s) @ [Timer (nextHandle s) (now + 3000) 0],
       nextHandle := Suc (nextHandle s)\<rparr>"
proof -
  have r: "displayLevelRef s \<noteq> 0" using assms by (simp add: dl_wf_def)
  show ?thesis
    unfolding handleMouseMove_def
    by (simp add: Let_def clear_idle [OF assms(1)] r setTimeout_def)
qed

lemma handleMouseDown_hidden:
  assumes "dl_wf s" "displayLevel s = 0"
  shows "handleMouseDown now s =
     s\<lparr>displayLevel := 3,
       mouseIdleTimer := Some (nextHandle s),
       lastMouseDownLevel := (0, now),
       pending := [Timer (nextHandle s) (now + 3000) 0],
       nextHandle := Suc (nextHandle s)\<rparr>"
proof -
  have r: "displayLevelRef s = 0" using assms by (simp add: dl_wf_def)
  let ?s = "s\<lparr>lastMouseDownLevel := (0, now)\<rparr>"
  have w: "dl_wf ?s" using assms(1) by (simp add: dl_wf_def owned_def)
  show ?thesis
    unfolding handleMouseDown_def
    using clear_idle [OF w] clear_level2 [OF w] clear_level3 [OF w] all_cleared [OF w]
    by (simp add: Let_def r setTimeout_def)
qed

lemma handleMouseDown_shown:
  assumes "dl_wf s" "displayLevel s \<noteq> 0"
  shows "handleMouseDown now s =
     s\<lparr>mouseIdleTimer := Some (nextHandle s),
       lastMouseDownLevel := (displayLevel s, now),
       pending := filter (\<lambda>x. target x \<noteq> 0) (pending s) @ [Timer (nextHandle s) (now + 3000) 0],
       nextHandle := Suc (nextHandle s)\<rparr>"
proof -
  have r: "displayLevelRef s = displayLevel s" using assms by (simp add: dl_wf_def)
  let ?s = "s\<lparr>lastMouseDownLevel := (displayLevel s, now)\<rparr>"
  have w: "dl_wf ?s" using assms(1) by (simp add: dl_wf_def owned_def)
  show ?thesis
    unfolding handleMouseDown_def
    using clear_idle [OF w] assms(2)
    by (simp add: Let_def r setTimeout_def)
qed

lemma sceneChangeEffect_reveal:
  assumes "dl_wf s" "previousSceneIndex s = Some p" "p \<noteq> idx" "levelToCheck now s = 0"
  shows "sceneChangeEffect now (Some idx) s =
     s\<lparr>displayLevel := 1,
       mouseIdleTimer := Some (nextHandle s),
       previousSceneIndex := Some idx,
       pending := filter (\<lambda>x. target x \<noteq> 0) (pending s) @ [Timer (nextHandle s) (now + 3000) 0],
       nextHandle := Suc (nextHandle s)\<rparr>"
proof -
  let ?s = "s\<lparr>displayLevel := 1\<rparr>"
  have "pending (clearIfSet (mouseIdleTimer ?s) ?s) = filter (\<lambda>x. target x \<noteq> 0) (pending ?s)"
    using wf_owned [OF assms(1)] by (intro pending_clearIfSet) (auto simp: owned_def)
  then have c: "clearIfSet (mouseIdleTimer s) ?s =
                  ?s\<lparr>pending := filter (\<lambda>x. target x \<noteq> 0) (pending s)\<rparr>"
    using clearIfSet_eq [of "mouseIdleTimer s" ?s] by simp
  show ?thesis
    unfolding sceneChangeEffect_def
    using assms(2-4) c
    by (simp add: Let_def setTimeout_def)
qed

lemma sceneChangeEffect_keep:
  assumes "previousSceneIndex s = Some p" "p \<noteq> idx" "levelToCheck now s \<noteq> 0"
  shows "sceneChangeEffect now (Some idx) s = s\<lparr>previousSceneIndex := Some idx\<rparr>"
  unfolding sceneChangeEffect_def using assms by (simp add: Let_def)

lemma sceneChangeEffect_same:
  assumes "previousSceneIndex s = None \<or> previousSceneIndex s = Some idx"
  shows "sceneChangeEffect now (Some idx) s = s\<lparr>previousSceneIndex := Some idx\<rparr>"
  unfolding sceneChangeEffect_def using assms by (auto simp add: Let_def)

lemma dl_wf_pointerDown_hidden:
  assumes "dl_wf s" "displayLevel s = 0"
  shows "dl_wf (syncDisplayLevelRef (handleMouseDown now s))"
  unfolding handleMouseDown_hidden [OF assms]
  using assms(1)
  by (auto simp add: dl_wf_def syncDisplayLevelRef_def owned_def issued_iff)

subsection \<open>The concrete states\<close>

lemmas dl_eval = mounted_def handleMouseMove_def handleMouseDown_def sceneChangeEffect_def
  levelToCheck_def clearIfSet_def clearTimeout_def setTimeout_def fireTimer_def
  syncDisplayLevelRef_def Let_def

lemma hidden_eq:
  "hidden =
     \<lparr>displayLevel = 0, displayLevelRef = 0, mouseIdleTimer = None, level2Timer = None,
      level3Timer = None, previousSceneIndex = Some 4, lastMouseDownLevel = (0, 0),
      pending = [], nextHandle = 1, listeners = [''mousemove'', ''mousedown'']\<rparr>"
  by (simp add: hidden_def dl_eval)

lemma revealed_eq:
  "revealed =
     \<lparr>displayLevel = 3, displayLevelRef = 3, mouseIdleTimer = Some 3, level2Timer = Some 1,
      level3Timer = Some 2, previousSceneIndex = Some 4, lastMouseDownLevel = (0, 0),
      pending = [Timer 3 4000 0], nextHandle = 4, listeners = [''mousemove'', ''mousedown'']\<rparr>"
  by (simp add: revealed_def hidden_eq dl_eval)

lemma clicked_eq:
  "clicked =
     \<lparr>displayLevel = 3, displayLevelRef = 3, mouseIdleTimer = Some 1, level2Timer = None,
      level3Timer = None, previousSceneIndex = Some 4, lastMouseDownLevel = (0, 2000),
      pending = [Timer 1 5000 0], nextHandle = 2, listeners = [''mousemove'', ''mousedown'']\<rparr>"
  by (simp add: clicked_def hidden_eq dl_eval)

lemma stale_eq:
  "stale =
     \<lparr>displayLevel = 1, displayLevelRef = 0, mouseIdleTimer = Some 3, level2Timer = Some 1,
      level3Timer = Some 2, previousSceneIndex = None, lastMouseDownLevel = (0, 0),
      pending = [Timer 1 1200 2, Timer 2 1500 3, Timer 3 4000 0], nextHandle = 4,
      listeners = [''mousemove'', ''mousedown'']\<rparr>"
  by (simp add: stale_def dl_eval)

lemma dl_wf_mounted: "dl_wf mounted"
  by (simp add: dl_wf_def mounted_def)


lemma dl_wf_revealed: "dl_wf revealed"
  by (simp add: dl_wf_def revealed_eq owned_def)


subsection \<open>The transition rules\<close>



text \<open>
  \<open>handleMouseMove\<close> in a flushed state: afterwards exactly one idle timer is pending, the
  one the ref holds, due 3000 ms later, and it resets the level to 0. At level 0 the level
  becomes 1 and the only other pending timers are the two new ones, due after 200 ms and
  500 ms, which set the levels 2 and 3. At level 1 or more only the idle timer, its ref and
  the handle counter change: the level, the two progression refs and their timers stay.
\<close>

lemma handleMouseMove_flushed:
  assumes "dl_wf s"
  shows "let s' = handleMouseMove now s in
     idleDeadline s' = Some (now + 3000) \<and>
     (\<exists>h. mouseIdleTimer s' = Some h \<and>
          filter (\<lambda>x. target x = 0) (pending s') = [Timer h (now + 3000) 0] \<and>
          displayLevel (fireTimer h s') = 0) \<and>
     (displayLevel s = 0 \<longrightarrow>
        displayLevel s' = 1 \<and>
        level2Deadline s' = Some (now + 200) \<and>
        level3Deadline s' = Some (now + 500) \<and>
        (\<exists>h2 h3. level2Timer s' = Some h2 \<and> level3Timer s' = Some h3 \<and>
           filter (\<lambda>x. target x \<noteq> 0) (pending s') =
             [Timer h2 (now + 200) 2, Timer h3 (now + 500) 3] \<and>
           displayLevel (fireTimer h2 s') = 2 \<and>
           displayLevel (fireTimer h3 s') = 3)) \<and>
     (1 \<le> displayLevel s \<longrightarrow>
        displayLevel s' = displayLevel s \<and>
        level2Deadline s' = level2Deadline s \<and>
        level3Deadline s' = level3Deadline s \<and>
        filter (\<lambda>x. target x \<noteq> 0) (pending s') = filter (\<lambda>x. target x \<noteq> 0) (pending s) \<and>
        s' = s\<lparr>mouseIdleTimer := mouseIdleTimer s', pending := pending s',
               nextHandle := nextHandle s'\<rparr>)"
proof (cases "displayLevel s = 0")
  case True
  show ?thesis
    unfolding Let_def handleMouseMove_hidden [OF assms True]
    using True
    by (simp add: idleDeadline_def level2Deadline_def level3Deadline_def deadline_def
        fireTimer_def)
next
  case False
  have k: "level2Deadline (handleMouseMove now s) = level2Deadline s"
    "level3Deadline (handleMouseMove now s) = level3Deadline s"
    unfolding handleMouseMove_shown [OF assms False] level2Deadline_def level3Deadline_def
    using deadline_kept [OF assms, of "level2Timer s" "now + 3000"]
      deadline_kept [OF assms, of "level3Timer s" "now + 3000"]
    by (simp_all add: deadline_def split: option.splits)
  show ?thesis
    unfolding Let_def k
    unfolding handleMouseMove_shown [OF assms False]
    using False wf_fresh [OF assms]
    by (auto simp add: idleDeadline_def deadline_def fireTimer_def find_new_timer
        filter_empty_conv)
qed

lemma handleMouseMove_flushed_example:
  "dl_wf mounted \<and> displayLevel mounted = 0 \<and>
   displayLevel (handleMouseMove 1000 mounted) = 1 \<and>
   level2Deadline (handleMouseMove 1000 mounted) = Some 1200 \<and>
   level3Deadline (handleMouseMove 1000 mounted) = Some 1500 \<and>
   idleDeadline (handleMouseMove 1000 mounted) = Some 4000 \<and>
   dl_wf revealed \<and> 1 \<le> displayLevel revealed \<and>
   displayLevel (handleMouseMove 2000 revealed) = 3 \<and>
   idleDeadline (handleMouseMove 2000 revealed) = Some 5000"
proof -
  have l: "displayLevel mounted = 0" by (simp add: mounted_def)
  have r: "1 \<le> displayLevel revealed" "displayLevel revealed = 3" by (simp_all add: revealed_eq)
  show ?thesis
    using dl_wf_mounted dl_wf_revealed l r
      handleMouseMove_flushed [OF dl_wf_mounted, of 1000]
      handleMouseMove_flushed [OF dl_wf_revealed, of 2000]
    by (simp add: Let_def)
qed

text \<open>
  C2, on the code. The handler tests \<open>displayLevelRef.current\<close>, and the ref is written only
  when React flushes the effects of a later commit, so a pointer move that comes before the
  flush branches on the level of an earlier render. The first pointer move after the mount
  sets the level to 1 and starts the level-2 and level-3 timers, due at 1200 and 1500; the
  ref still holds 0. A second pointer move at 1100 then takes the branch for level 0 again:
  it clears the two timers in flight and starts new ones, due at 1300 and 1600, although the
  level is 1 (the handler's comment: \<open>If already at level 1+, don't touch progression timers\<close>).
  The other way round, once the reveal has run to level 3 with a flush after each step
  and the idle timer has set the level to 0 at 4000, the ref still holds 3: a pointer move
  at 4010 leaves the level at 0 and starts no progression timer (the handler's comment:
  \<open>Only start progressive reveal if currently at level 0\<close>).
\<close>

theorem pointerMove_stale_ref:
  "run 1000 mounted [(1000, PointerMove)] = Some (1000, stale) \<and>
   displayLevel stale = 1 \<and> displayLevelRef stale = 0 \<and>
   level2Deadline stale = Some 1200 \<and> level3Deadline stale = Some 1500 \<and>
   displayLevel (handleMouseMove 1100 stale) = 1 \<and>
   level2Deadline (handleMouseMove 1100 stale) = Some 1300 \<and>
   level3Deadline (handleMouseMove 1100 stale) = Some 1600 \<and>
   pending (handleMouseMove 1100 stale) =
     [Timer 4 1300 2, Timer 5 1600 3, Timer 6 4100 0] \<and>
   map_option (\<lambda>(t, s). (displayLevel s, displayLevelRef s, pending s))
     (run 1000 mounted [(1000, PointerMove), (1050, Flush), (1200, TimerFires 1),
                        (1250, Flush), (1500, TimerFires 2), (1550, Flush),
                        (4000, TimerFires 3)]) =
     Some (0, 3, []) \<and>
   map_option (\<lambda>(t, s). (displayLevel s, displayLevelRef s, pending s))
     (run 1000 mounted [(1000, PointerMove), (1050, Flush), (1200, TimerFires 1),
                        (1250, Flush), (1500, TimerFires 2), (1550, Flush),
                        (4000, TimerFires 3), (4010, PointerMove)]) =
     Some (0, 3, [Timer 4 7010 0])"
  by (simp add: stale_def level2Deadline_def level3Deadline_def deadline_def dl_eval)

text \<open>
  \<open>handleMouseDown\<close> in a flushed state: the snapshot holds the level before the handler
  changed anything and the time of the event; afterwards exactly one idle timer is pending,
  the new one, due 3000 ms later, and it resets the level to 0. At level 0 the level becomes
  3 and no other timer is pending any more, so no handle but the new one can change the
  state by firing. At level 1 or more the level, the progression refs and their timers stay.
\<close>

lemma handleMouseDown_flushed:
  assumes "dl_wf s"
  shows "let s' = handleMouseDown now s in
     lastMouseDownLevel s' = (displayLevel s, now) \<and>
     mouseIdleTimer s' = Some (nextHandle s) \<and>
     idleDeadline s' = Some (now + 3000) \<and>
     filter (\<lambda>x. target x = 0) (pending s') = [Timer (nextHandle s) (now + 3000) 0] \<and>
     displayLevel (fireTimer (nextHandle s) s') = 0 \<and>
     (displayLevel s = 0 \<longrightarrow>
        displayLevel s' = 3 \<and>
        pending s' = [Timer (nextHandle s) (now + 3000) 0] \<and>
        level2Deadline s' = None \<and> level3Deadline s' = None \<and>
        (\<forall>h. h \<noteq> nextHandle s \<longrightarrow> fireTimer h s' = s')) \<and>
     (1 \<le> displayLevel s \<longrightarrow>
        displayLevel s' = displayLevel s \<and>
        level2Deadline s' = level2Deadline s \<and>
        level3Deadline s' = level3Deadline s \<and>
        filter (\<lambda>x. target x \<noteq> 0) (pending s') = filter (\<lambda>x. target x \<noteq> 0) (pending s) \<and>
        s' = s\<lparr>lastMouseDownLevel := lastMouseDownLevel s', mouseIdleTimer := mouseIdleTimer s',
               pending := pending s', nextHandle := nextHandle s'\<rparr>)"
proof (cases "displayLevel s = 0")
  case True
  show ?thesis
    unfolding Let_def handleMouseDown_hidden [OF assms True]
    using True wf_issued [OF assms]
    by (auto simp add: idleDeadline_def level2Deadline_def level3Deadline_def deadline_def
        fireTimer_def issued_iff split: option.splits)
next
  case False
  have k: "level2Deadline (handleMouseDown now s) = level2Deadline s"
    "level3Deadline (handleMouseDown now s) = level3Deadline s"
    unfolding handleMouseDown_shown [OF assms False] level2Deadline_def level3Deadline_def
    using deadline_kept [OF assms, of "level2Timer s" "now + 3000"]
      deadline_kept [OF assms, of "level3Timer s" "now + 3000"]
    by (simp_all add: deadline_def split: option.splits)
  show ?thesis
    unfolding Let_def k
    unfolding handleMouseDown_shown [OF assms False]
    using False wf_fresh [OF assms]
    by (auto simp add: idleDeadline_def deadline_def fireTimer_def find_new_timer
        filter_empty_conv)
qed

lemma handleMouseDown_flushed_example:
  "dl_wf mounted \<and> displayLevel mounted = 0 \<and>
   displayLevel (handleMouseDown 1000 mounted) = 3 \<and>
   lastMouseDownLevel (handleMouseDown 1000 mounted) = (0, 1000) \<and>
   pending (handleMouseDown 1000 mounted) = [Timer 1 4000 0] \<and>
   dl_wf revealed \<and> 1 \<le> displayLevel revealed \<and>
   displayLevel (handleMouseDown 2000 revealed) = 3 \<and>
   lastMouseDownLevel (handleMouseDown 2000 revealed) = (3, 2000) \<and>
   idleDeadline (handleMouseDown 2000 revealed) = Some 5000"
proof -
  have l: "displayLevel mounted = 0" "nextHandle mounted = 1" by (simp_all add: mounted_def)
  have r: "1 \<le> displayLevel revealed" "displayLevel revealed = 3" by (simp_all add: revealed_eq)
  show ?thesis
    using dl_wf_mounted dl_wf_revealed l r
      handleMouseDown_flushed [OF dl_wf_mounted, of 1000]
      handleMouseDown_flushed [OF dl_wf_revealed, of 2000]
    by (simp add: Let_def)
qed

text \<open>
  C3, on the code. The handler records and tests \<open>displayLevelRef.current\<close>, which a pointer
  down that comes before React's flush finds older than the level. After the first pointer
  move (level 1, ref 0, level-2 and level-3 timers due at 1200 and 1500) a pointer down at
  1100 records the snapshot \<open>{level: 0, timestamp: 1100}\<close>, not the level 1 the hook is at
  (the handler's comment: \<open>Record display level and timestamp before any change\<close>), clears
  both progression timers and sets the level to 3 (the handler's comment:
  \<open>If already at level 1+, don't change level (just reset idle timer)\<close>). The other way
  round, once the reveal has run to level 3 with a flush after each step and the idle timer
  has set the level to 0 at 4000, the ref still holds 3: a pointer down at 4010 records
  level 3 and leaves the level at 0 (the handler's comment:
  \<open>Jump directly to level 3 if at level 0\<close>).
\<close>

theorem pointerDown_stale_ref:
  "run 1000 mounted [(1000, PointerMove)] = Some (1000, stale) \<and>
   displayLevel stale = 1 \<and> displayLevelRef stale = 0 \<and>
   level2Deadline stale = Some 1200 \<and> level3Deadline stale = Some 1500 \<and>
   lastMouseDownLevel (handleMouseDown 1100 stale) = (0, 1100) \<and>
   displayLevel (handleMouseDown 1100 stale) = 3 \<and>
   level2Deadline (handleMouseDown 1100 stale) = None \<and>
   level3Deadline (handleMouseDown 1100 stale) = None \<and>
   pending (handleMouseDown 1100 stale) = [Timer 4 4100 0] \<and>
   map_option (\<lambda>(t, s). (displayLevel s, displayLevelRef s, lastMouseDownLevel s, pending s))
     (run 1000 mounted [(1000, PointerMove), (1050, Flush), (1200, TimerFires 1),
                        (1250, Flush), (1500, TimerFires 2), (1550, Flush),
                        (4000, TimerFires 3), (4010, PointerDown)]) =
     Some (0, 3, (3, 4010), [Timer 4 7010 0])"
  by (simp add: stale_def level2Deadline_def level3Deadline_def deadline_def dl_eval)


subsection \<open>The invariant of the reveal\<close>

lemma dl_wf_reschedule:
  assumes "dl_wf s"
  shows "dl_wf (s\<lparr>mouseIdleTimer := Some (nextHandle s),
                  pending := filter (\<lambda>x. 0 < target x) (pending s) @ [Timer (nextHandle s) d 0],
                  nextHandle := Suc (nextHandle s)\<rparr>)"
    (is "dl_wf ?s'")
proof -
  let ?n = "nextHandle s"
  have old: "\<forall>x \<in> set (pending s). 0 < tid x \<and> tid x < ?n \<and> owned s x"
    using wf_owned [OF assms] by blast
  have pos: "0 < ?n" and d: "distinct (map tid (pending s))"
    and r: "displayLevelRef s = displayLevel s"
    using assms by (simp_all add: dl_wf_def)
  have i2: "\<forall>h. level2Timer s = Some h \<longrightarrow> 0 < h \<and> h < ?n"
    and i3: "\<forall>h. level3Timer s = Some h \<longrightarrow> 0 < h \<and> h < ?n"
    using wf_issued [OF assms] by (simp_all add: issued_iff)
  have "distinct (map tid (filter (\<lambda>x. 0 < target x) (pending s)))"
    using d by (rule distinct_map_filter)
  moreover have "?n \<notin> tid ` set (filter (\<lambda>x. 0 < target x) (pending s))"
    using old by auto
  ultimately have dist: "distinct (map tid (pending ?s'))" by simp
  have kept: "0 < tid x \<and> tid x < Suc ?n \<and> owned ?s' x"
    if "x \<in> set (pending s)" "0 < target x" for x
  proof -
    from that old have "0 < tid x" "tid x < ?n" "owned s x" by auto
    with that(2) show ?thesis by (auto simp: owned_def)
  qed
  have new: "owned ?s' (Timer ?n d 0)"
    using i2 i3 by (auto simp: owned_def)
  have all: "list_all (\<lambda>x. 0 < tid x \<and> tid x < nextHandle ?s' \<and> owned ?s' x) (pending ?s')"
    using kept new pos by (simp add: list_all_iff)
  have i2': "issued (nextHandle ?s') (level2Timer ?s')" using i2 by (auto simp: issued_iff)
  have i3': "issued (nextHandle ?s') (level3Timer ?s')" using i3 by (auto simp: issued_iff)
  have i0': "issued (nextHandle ?s') (mouseIdleTimer ?s')" using pos by simp
  have r': "displayLevelRef ?s' = displayLevel ?s'" "0 < nextHandle ?s'" using r by simp_all
  show ?thesis
    unfolding dl_wf_def
    using r' i0' i2' i3' dist all by blast
qed

lemma dl_wf_irrelevant:
  assumes "dl_wf s"
  shows "dl_wf (s\<lparr>lastMouseDownLevel := c\<rparr>)" "dl_wf (s\<lparr>previousSceneIndex := i\<rparr>)"
    "dl_wf (s\<lparr>displayLevel := l, displayLevelRef := l\<rparr>)"
  using assms by (simp_all add: dl_wf_def owned_def)


lemma prompt_later: "prompt t p \<Longrightarrow> t \<le> t' \<Longrightarrow> prompt t' p"
  unfolding prompt_def by fastforce

lemma fresh_click_later: "fresh_click t c p l \<Longrightarrow> t \<le> t' \<Longrightarrow> fresh_click t' c p l"
  unfolding fresh_click_def by auto

lemma phases_start: "d2 < d3 \<Longrightarrow> d3 < d0 \<Longrightarrow> phases [Timer a d2 2, Timer b d3 3, Timer c d0 0] 1"
  by (simp add: phases_def)

lemma phases_idle_only: "l = 1 \<or> l = 3 \<Longrightarrow> phases [Timer a d 0] l"
  by (auto simp add: phases_def)

lemma phases_reschedule:
  assumes "phases p l" "l \<noteq> 0" "\<forall>x \<in> set p. target x = 3 \<longrightarrow> due x < d"
  shows "phases (filter (\<lambda>x. 0 < target x) p @ [Timer n d 0]) l"
proof -
  let ?q = "filter (\<lambda>x. 0 < target x) p @ [Timer n d 0]"
  have s: "set ?q = {x \<in> set p. 0 < target x} \<union> {Timer n d 0}" by auto
  have a: "\<forall>x \<in> set p. \<forall>y \<in> set p. target x = 2 \<and> target y = 3 \<longrightarrow> due x < due y"
    and b: "\<forall>x \<in> set p. target x = 2 \<longrightarrow> l = 1 \<and> (\<exists>y \<in> set p. target y = 3)"
    and c: "\<forall>x \<in> set p. target x = 3 \<longrightarrow> l = 2 \<or> (\<exists>y \<in> set p. target y = 2)"
    and e: "(\<forall>x \<in> set p. target x = 0) \<longrightarrow> l = 0 \<or> l = 1 \<or> l = 3"
    using assms(1) unfolding phases_def by blast+
  have 1: "\<exists>x \<in> set ?q. target x = 0" by simp
  have 2: "\<forall>x \<in> set ?q. \<forall>y \<in> set ?q. target x = 2 \<and> target y = 3 \<longrightarrow> due x < due y"
    unfolding s using a by auto
  have 3: "\<forall>x \<in> set ?q. \<forall>y \<in> set ?q. target x = 3 \<and> target y = 0 \<longrightarrow> due x < due y"
    unfolding s using assms(3) by auto
  have 4: "\<forall>x \<in> set ?q. target x = 2 \<longrightarrow> l = 1 \<and> (\<exists>y \<in> set ?q. target y = 3)"
    unfolding s using b by fastforce
  have 5: "\<forall>x \<in> set ?q. target x = 3 \<longrightarrow> l = 2 \<or> (\<exists>y \<in> set ?q. target y = 2)"
    unfolding s using c by fastforce
  have 6: "(\<forall>x \<in> set ?q. target x = 0) \<longrightarrow> l = 0 \<or> l = 1 \<or> l = 3"
  proof
    assume "\<forall>x \<in> set ?q. target x = 0"
    then have "\<forall>x \<in> set p. target x = 0" unfolding s by auto
    with e show "l = 0 \<or> l = 1 \<or> l = 3" by blast
  qed
  show ?thesis unfolding phases_def using assms(2) 1 2 3 4 5 6 by blast
qed


lemma prompt_reschedule: "prompt t p \<Longrightarrow> t \<le> t' \<Longrightarrow>
    prompt t' (filter (\<lambda>x. 0 < target x) p @ [Timer n d 0])"
  unfolding prompt_def by fastforce

lemma prompt_before_idle:
  "prompt t p \<Longrightarrow> t \<le> t' \<Longrightarrow> \<forall>x \<in> set p. target x = 3 \<longrightarrow> due x < t' + 3000"
  unfolding prompt_def by fastforce

lemma fresh_click_reschedule:
  assumes "fresh_click t c p l" "t \<le> t'" "l' \<noteq> 0"
  shows "fresh_click t' c (filter (\<lambda>x. 0 < target x) p @ [Timer n (t' + 3000) 0]) l'"
proof -
  have le: "snd c \<le> t'" using assms(1,2) unfolding fresh_click_def by simp
  have "\<forall>x \<in> set (filter (\<lambda>x. 0 < target x) p @ [Timer n (t' + 3000) 0]).
           target x = 0 \<and> snd c + 3000 \<le> due x"
    if "fst c = 0" "t' - snd c < 500"
  proof -
    from that assms(1,2) have "\<forall>x \<in> set p. target x = 0" unfolding fresh_click_def by auto
    then have "filter (\<lambda>x. 0 < target x) p = []" by (simp add: filter_empty_conv)
    then show ?thesis using le by simp
  qed
  then show ?thesis unfolding fresh_click_def using le assms(3) by blast
qed

lemma inv_move:
  assumes "reveal_inv t s" "t \<le> t'"
  shows "reveal_inv t' (syncDisplayLevelRef (handleMouseMove t' s))"
proof -
  have wf: "dl_wf s" and ph: "phases (pending s) (displayLevel s)" and pr: "prompt t (pending s)"
    and fc: "fresh_click t (lastMouseDownLevel s) (pending s) (displayLevel s)"
    using assms(1) by (simp_all add: reveal_inv_def)
  have r: "displayLevelRef s = displayLevel s" using wf by (simp add: dl_wf_def)
  show ?thesis
  proof (cases "displayLevel s = 0")
    case True
    let ?s' = "syncDisplayLevelRef (handleMouseMove t' s)"
    have e: "?s' = s\<lparr>displayLevel := 1, displayLevelRef := 1,
       mouseIdleTimer := Some (Suc (Suc (nextHandle s))),
       level2Timer := Some (nextHandle s),
       level3Timer := Some (Suc (nextHandle s)),
       pending := [Timer (nextHandle s) (t' + 200) 2, Timer (Suc (nextHandle s)) (t' + 500) 3,
                   Timer (Suc (Suc (nextHandle s))) (t' + 3000) 0],
       nextHandle := Suc (Suc (Suc (nextHandle s)))\<rparr>"
      by (simp add: handleMouseMove_hidden [OF wf True] syncDisplayLevelRef_def)
    have 1: "dl_wf ?s'" unfolding e using wf by (simp add: dl_wf_def owned_def)
    have 2: "phases (pending ?s') (displayLevel ?s')" unfolding e
      using phases_start [of "t' + 200" "t' + 500" "t' + 3000"] by simp
    have 3: "prompt t' (pending ?s')" unfolding e by (simp add: prompt_def)
    have 4: "fresh_click t' (lastMouseDownLevel ?s') (pending ?s') (displayLevel ?s')"
      unfolding e using fc True assms(2) by (auto simp add: fresh_click_def)
    show ?thesis unfolding reveal_inv_def using 1 2 3 4 by blast
  next
    case False
    let ?s' = "syncDisplayLevelRef (handleMouseMove t' s)"
    have e: "?s' = s\<lparr>mouseIdleTimer := Some (nextHandle s),
       pending := filter (\<lambda>x. 0 < target x) (pending s) @ [Timer (nextHandle s) (t' + 3000) 0],
       nextHandle := Suc (nextHandle s)\<rparr>"
      using r by (simp add: handleMouseMove_shown [OF wf False] syncDisplayLevelRef_def)
    have 1: "dl_wf ?s'" unfolding e by (rule dl_wf_reschedule [OF wf])
    have 2: "phases (pending ?s') (displayLevel ?s')" unfolding e
      using phases_reschedule [OF ph False prompt_before_idle [OF pr assms(2)]] by simp
    have 3: "prompt t' (pending ?s')" unfolding e
      using prompt_reschedule [OF pr assms(2)] by simp
    have 4: "fresh_click t' (lastMouseDownLevel ?s') (pending ?s') (displayLevel ?s')"
      unfolding e using fresh_click_reschedule [OF fc assms(2) False] by simp
    show ?thesis unfolding reveal_inv_def using 1 2 3 4 by blast
  qed
qed


lemma inv_down:
  assumes "reveal_inv t s" "t \<le> t'"
  shows "reveal_inv t' (syncDisplayLevelRef (handleMouseDown t' s))"
proof -
  have wf: "dl_wf s" and ph: "phases (pending s) (displayLevel s)" and pr: "prompt t (pending s)"
    and fc: "fresh_click t (lastMouseDownLevel s) (pending s) (displayLevel s)"
    using assms(1) by (simp_all add: reveal_inv_def)
  have r: "displayLevelRef s = displayLevel s" using wf by (simp add: dl_wf_def)
  let ?s' = "syncDisplayLevelRef (handleMouseDown t' s)"
  show ?thesis
  proof (cases "displayLevel s = 0")
    case True
    have e: "?s' = s\<lparr>displayLevel := 3, displayLevelRef := 3,
       mouseIdleTimer := Some (nextHandle s),
       lastMouseDownLevel := (0, t'),
       pending := [Timer (nextHandle s) (t' + 3000) 0],
       nextHandle := Suc (nextHandle s)\<rparr>"
      by (simp add: handleMouseDown_hidden [OF wf True] syncDisplayLevelRef_def)
    have 1: "dl_wf ?s'" by (rule dl_wf_pointerDown_hidden [OF wf True])
    have 2: "phases (pending ?s') (displayLevel ?s')" unfolding e by (simp add: phases_idle_only)
    have 3: "prompt t' (pending ?s')" unfolding e by (simp add: prompt_def)
    have 4: "fresh_click t' (lastMouseDownLevel ?s') (pending ?s') (displayLevel ?s')"
      unfolding e by (simp add: fresh_click_def)
    show ?thesis unfolding reveal_inv_def using 1 2 3 4 by blast
  next
    case False
    have e: "?s' = s\<lparr>mouseIdleTimer := Some (nextHandle s),
       pending := filter (\<lambda>x. 0 < target x) (pending s) @ [Timer (nextHandle s) (t' + 3000) 0],
       nextHandle := Suc (nextHandle s)\<rparr>\<lparr>lastMouseDownLevel := (displayLevel s, t')\<rparr>"
      using r by (simp add: handleMouseDown_shown [OF wf False] syncDisplayLevelRef_def)
    have 1: "dl_wf ?s'" unfolding e by (rule dl_wf_irrelevant(1) [OF dl_wf_reschedule [OF wf]])
    have 2: "phases (pending ?s') (displayLevel ?s')" unfolding e
      using phases_reschedule [OF ph False prompt_before_idle [OF pr assms(2)]] by simp
    have 3: "prompt t' (pending ?s')" unfolding e
      using prompt_reschedule [OF pr assms(2)] by simp
    have 4: "fresh_click t' (lastMouseDownLevel ?s') (pending ?s') (displayLevel ?s')"
      unfolding e using False by (simp add: fresh_click_def)
    show ?thesis unfolding reveal_inv_def using 1 2 3 4 by blast
  qed
qed

lemma inv_later:
  assumes "reveal_inv t s" "t \<le> t'"
  shows "reveal_inv t' s" "reveal_inv t' (s\<lparr>previousSceneIndex := i\<rparr>)"
  using assms prompt_later [of t "pending s" t']
    fresh_click_later [of t "lastMouseDownLevel s" "pending s" "displayLevel s" t']
    dl_wf_irrelevant(2) [of s i]
  by (simp_all add: reveal_inv_def)

lemma sync_id: "dl_wf s \<Longrightarrow> syncDisplayLevelRef s = s"
  by (simp add: dl_wf_def syncDisplayLevelRef_def)

text \<open>When the scene change effect finds the reference level 0, only idle timers can be
  pending, whichever of the two levels it looked at.\<close>

lemma reveal_only_idle:
  assumes "reveal_inv t s" "t \<le> t'" "levelToCheck t' s = 0"
  shows "filter (\<lambda>x. 0 < target x) (pending s) = []"
proof -
  have wf: "dl_wf s" and ph: "phases (pending s) (displayLevel s)"
    and fc: "fresh_click t (lastMouseDownLevel s) (pending s) (displayLevel s)"
    using assms(1) by (simp_all add: reveal_inv_def)
  have r: "displayLevelRef s = displayLevel s" using wf by (simp add: dl_wf_def)
  show ?thesis
  proof (cases "t' - snd (lastMouseDownLevel s) < 500")
    case True
    then have "fst (lastMouseDownLevel s) = 0" "t - snd (lastMouseDownLevel s) < 500"
      using assms(2,3) by (simp_all add: levelToCheck_def Let_def)
    then have "\<forall>x \<in> set (pending s). target x = 0" using fc unfolding fresh_click_def by blast
    then show ?thesis by (simp add: filter_empty_conv)
  next
    case False
    then have "displayLevel s = 0" using assms(3) r by (simp add: levelToCheck_def Let_def)
    then have "pending s = []" using ph unfolding phases_def by blast
    then show ?thesis by simp
  qed
qed

lemma inv_scene:
  assumes "reveal_inv t s" "t \<le> t'"
  shows "reveal_inv t' (syncDisplayLevelRef (sceneChangeEffect t' i s))"
proof -
  have wf: "dl_wf s" and ph: "phases (pending s) (displayLevel s)" and pr: "prompt t (pending s)"
    and fc: "fresh_click t (lastMouseDownLevel s) (pending s) (displayLevel s)"
    using assms(1) by (simp_all add: reveal_inv_def)
  have r: "displayLevelRef s = displayLevel s" using wf by (simp add: dl_wf_def)
  let ?s' = "syncDisplayLevelRef (sceneChangeEffect t' i s)"
  have plain: "reveal_inv t' (syncDisplayLevelRef (s\<lparr>previousSceneIndex := j\<rparr>))" for j
    using inv_later(2) [OF assms, of j] sync_id [of "s\<lparr>previousSceneIndex := j\<rparr>"]
    by (simp add: reveal_inv_def)
  show ?thesis
  proof (cases i)
    case None
    then have "?s' = s" using sync_id [OF wf] by (simp add: sceneChangeEffect_def)
    then show ?thesis using inv_later(1) [OF assms] by simp
  next
    case (Some idx)
    consider (same) "previousSceneIndex s = None \<or> previousSceneIndex s = Some idx"
      | (keep) p where "previousSceneIndex s = Some p" "p \<noteq> idx" "levelToCheck t' s \<noteq> 0"
      | (reveal) p where "previousSceneIndex s = Some p" "p \<noteq> idx" "levelToCheck t' s = 0"
      by (cases "previousSceneIndex s") auto
    then show ?thesis
    proof cases
      case same
      show ?thesis unfolding Some sceneChangeEffect_same [OF same] by (rule plain)
    next
      case keep
      show ?thesis unfolding Some sceneChangeEffect_keep [OF keep] by (rule plain)
    next
      case reveal
      have only: "filter (\<lambda>x. 0 < target x) (pending s) = []"
        by (rule reveal_only_idle [OF assms reveal(3)])
      have e: "?s' = s\<lparr>mouseIdleTimer := Some (nextHandle s),
         pending := filter (\<lambda>x. 0 < target x) (pending s) @ [Timer (nextHandle s) (t' + 3000) 0],
         nextHandle := Suc (nextHandle s)\<rparr>\<lparr>previousSceneIndex := Some idx\<rparr>
          \<lparr>displayLevel := 1, displayLevelRef := 1\<rparr>"
        unfolding Some
        by (simp add: sceneChangeEffect_reveal [OF wf reveal] syncDisplayLevelRef_def)
      have 1: "dl_wf ?s'" unfolding e
        by (rule dl_wf_irrelevant(3) [OF dl_wf_irrelevant(2) [OF dl_wf_reschedule [OF wf]]])
      have 2: "phases (pending ?s') (displayLevel ?s')" unfolding e
        using only phases_idle_only [of 1] by simp
      have 3: "prompt t' (pending ?s')" unfolding e using only by (simp add: prompt_def)
      have "snd (lastMouseDownLevel s) \<le> t'" using fc assms(2) by (simp add: fresh_click_def)
      then have 4: "fresh_click t' (lastMouseDownLevel ?s') (pending ?s') (displayLevel ?s')"
        unfolding e using only by (simp add: fresh_click_def)
      show ?thesis unfolding reveal_inv_def using 1 2 3 4 by blast
    qed
  qed
qed

lemma wf_unique:
  assumes "dl_wf s" "x \<in> set (pending s)" "y \<in> set (pending s)" "target y = target x"
  shows "y = x"
proof -
  have ox: "owned s x" and oy: "owned s y" using wf_owned [OF assms(1)] assms(2,3) by auto
  have "target x = 0 \<or> target x = 2 \<or> target x = 3" using ox by (simp add: owned_def)
  then have "\<exists>h. Some (tid x) = h \<and> Some (tid y) = h"
    using ox oy assms(4) by (auto simp: owned_def)
  then have "tid y = tid x" by auto
  moreover have "inj_on tid (set (pending s))"
    using assms(1) by (simp add: dl_wf_def distinct_map)
  ultimately show ?thesis using assms(2,3) by (simp add: inj_on_eq_iff)
qed

lemma wf_targets:
  "dl_wf s \<Longrightarrow> x \<in> set (pending s) \<Longrightarrow> target x = 0 \<or> target x = 2 \<or> target x = 3"
  using wf_owned [of s x] by (simp add: owned_def)

lemma set_remove_fired:
  assumes "dl_wf s" "x \<in> set (pending s)"
  shows "set (filter (\<lambda>y. tid y \<noteq> tid x) (pending s)) = set (pending s) - {x}"
proof -
  have "inj_on tid (set (pending s))"
    using assms(1) by (simp add: dl_wf_def distinct_map)
  then have "\<forall>y \<in> set (pending s). (tid y \<noteq> tid x) = (y \<noteq> x)"
    using assms(2) by (simp add: inj_on_eq_iff)
  then show ?thesis by auto
qed

text \<open>The timer that is due first decides the phase: the level-2 timer runs at level 1,
  the level-3 timer at level 2 after it, and the idle timer only when no other is left.\<close>

lemma phases_fire:
  assumes "phases p l" "x \<in> set p" "\<forall>y \<in> set p. due x \<le> due y"
    and u: "\<forall>y \<in> set p. target y = target x \<longrightarrow> y = x"
    and k: "\<forall>y \<in> set p. target y = 0 \<or> target y = 2 \<or> target y = 3"
    and q: "set q = set p - {x}"
  shows "phases q (target x) \<and>
         (target x = 2 \<and> l = 1 \<or> target x = 3 \<and> l = 2 \<or> target x = 0)"
proof -
  have idle: "l \<noteq> 0 \<longrightarrow> (\<exists>x \<in> set p. target x = 0)"
    and a: "\<forall>x \<in> set p. \<forall>y \<in> set p. target x = 2 \<and> target y = 3 \<longrightarrow> due x < due y"
    and a': "\<forall>x \<in> set p. \<forall>y \<in> set p. target x = 3 \<and> target y = 0 \<longrightarrow> due x < due y"
    and b: "\<forall>x \<in> set p. target x = 2 \<longrightarrow> l = 1 \<and> (\<exists>y \<in> set p. target y = 3)"
    and c: "\<forall>x \<in> set p. target x = 3 \<longrightarrow> l = 2 \<or> (\<exists>y \<in> set p. target y = 2)"
    using assms(1) unfolding phases_def by blast+
  have mem: "w \<in> set q \<longleftrightarrow> w \<in> set p \<and> w \<noteq> x" for w using q by simp
  have sub: "\<And>w. w \<in> set q \<Longrightarrow> w \<in> set p" using mem by fastforce
  have gone: "\<forall>w \<in> set q. target w \<noteq> target x"
  proof
    fix w assume "w \<in> set q"
    then have "w \<in> set p" "w \<noteq> x" using mem by fastforce+
    then show "target w \<noteq> target x" using u by fastforce
  qed
  have other: "w \<in> set q" if "w \<in> set p" "target w \<noteq> target x" for w
  proof -
    have "w \<noteq> x" using that(2) by fastforce
    then show ?thesis using that(1) mem by fastforce
  qed
  have tx: "target x = 0 \<or> target x = 2 \<or> target x = 3" using k assms(2) by fastforce
  have ord: "\<forall>x \<in> set q. \<forall>y \<in> set q. target x = 3 \<and> target y = 0 \<longrightarrow> due x < due y"
    using a' sub by fastforce
  have ord2: "\<forall>x \<in> set q. \<forall>y \<in> set q. target x = 2 \<and> target y = 3 \<longrightarrow> due x < due y"
    using a sub by fastforce
  show ?thesis
  proof (cases "target x = 2")
    case True
    have l: "l = 1" using b assms(2) True by fastforce
    obtain y where y0: "y \<in> set p" and y3: "target y = 3" using b assms(2) True by fastforce
    obtain z where z0: "z \<in> set p" and zt: "target z = 0" using idle l by auto
    have y: "y \<in> set q" using other [OF y0] y3 True by simp
    have z: "z \<in> set q" using other [OF z0] zt True by simp
    have no2: "\<forall>w \<in> set q. target w \<noteq> 2" using gone True by simp
    have ne: "q \<noteq> []" using y by auto
    have "target y \<noteq> 0" using y3 by simp
    then have n0: "\<not> (\<forall>w \<in> set q. target w = 0)" using y by force
    have "phases q 2"
      unfolding phases_def
    proof (intro conjI)
      show "(2::nat) = 0 \<longrightarrow> q = []" by simp
      show "(2::nat) \<noteq> 0 \<longrightarrow> (\<exists>x \<in> set q. target x = 0)" using z zt by fastforce
      show "\<forall>x \<in> set q. \<forall>y \<in> set q. target x = 2 \<and> target y = 3 \<longrightarrow> due x < due y"
        by (rule ord2)
      show "\<forall>x \<in> set q. \<forall>y \<in> set q. target x = 3 \<and> target y = 0 \<longrightarrow> due x < due y"
        by (rule ord)
      show "\<forall>x \<in> set q. target x = 2 \<longrightarrow> (2::nat) = 1 \<and> (\<exists>y \<in> set q. target y = 3)"
        using no2 by fastforce
      show "\<forall>x \<in> set q. target x = 3 \<longrightarrow> (2::nat) = 2 \<or> (\<exists>y \<in> set q. target y = 2)" by simp
      show "(\<forall>x \<in> set q. target x = 0) \<longrightarrow> (2::nat) = 0 \<or> (2::nat) = 1 \<or> (2::nat) = 3" using n0 by fastforce
    qed
    then show ?thesis using True l by simp
  next
    case False
    note not2 = False
    show ?thesis
    proof (cases "target x = 3")
      case True
      have no2p: "\<forall>w \<in> set p. target w \<noteq> 2"
      proof
        fix w assume w: "w \<in> set p"
        show "target w \<noteq> 2"
        proof
          assume "target w = 2"
          then have "due w < due x" using a w assms(2) True by fastforce
          moreover have "due x \<le> due w" using assms(3) w by fastforce
          ultimately show False by simp
        qed
      qed
      have l: "l = 2" using c assms(2) True no2p by fastforce
      obtain z where z0: "z \<in> set p" and zt: "target z = 0" using idle l by auto
      have z: "z \<in> set q" using other [OF z0] zt True by simp
      have no2: "\<forall>w \<in> set q. target w \<noteq> 2" using no2p sub by fastforce
      have no3: "\<forall>w \<in> set q. target w \<noteq> 3" using gone True by simp
      have "phases q 3"
        unfolding phases_def
      proof (intro conjI)
        show "(3::nat) = 0 \<longrightarrow> q = []" by simp
        show "(3::nat) \<noteq> 0 \<longrightarrow> (\<exists>x \<in> set q. target x = 0)" using z zt by fastforce
        show "\<forall>x \<in> set q. \<forall>y \<in> set q. target x = 2 \<and> target y = 3 \<longrightarrow> due x < due y"
          by (rule ord2)
        show "\<forall>x \<in> set q. \<forall>y \<in> set q. target x = 3 \<and> target y = 0 \<longrightarrow> due x < due y"
          by (rule ord)
        show "\<forall>x \<in> set q. target x = 2 \<longrightarrow> (3::nat) = 1 \<and> (\<exists>y \<in> set q. target y = 3)"
          using no2 by fastforce
        show "\<forall>x \<in> set q. target x = 3 \<longrightarrow> (3::nat) = 2 \<or> (\<exists>y \<in> set q. target y = 2)"
          using no3 by fastforce
        show "(\<forall>x \<in> set q. target x = 0) \<longrightarrow> (3::nat) = 0 \<or> (3::nat) = 1 \<or> (3::nat) = 3" by simp
      qed
      then show ?thesis using True l by simp
    next
      case False
      then have zero: "target x = 0" using tx not2 by fastforce
      have no3: "\<forall>w \<in> set p. target w \<noteq> 3"
      proof
        fix w assume w: "w \<in> set p"
        show "target w \<noteq> 3"
        proof
          assume "target w = 3"
          then have "due w < due x" using a' w assms(2) zero by fastforce
          moreover have "due x \<le> due w" using assms(3) w by fastforce
          ultimately show False by simp
        qed
      qed
      have no2: "\<forall>w \<in> set p. target w \<noteq> 2" using b no3 by fastforce
      have "set q = {}"
      proof (rule ccontr)
        assume "set q \<noteq> {}"
        then obtain w where w: "w \<in> set q" by fastforce
        then have wp: "w \<in> set p" by (rule sub)
        then have "target w = 0" using k no2 no3 by fastforce
        then show False using gone w zero by force
      qed
      then have "q = []" by simp
      then have "phases q 0" by (simp add: phases_def)
      then show ?thesis using zero by simp
    qed
  qed
qed

lemma fireTimer_found:
  assumes "find (\<lambda>x. tid x = h) (pending s) = Some x"
  shows "x \<in> set (pending s)" "tid x = h"
    "fireTimer h s = s\<lparr>displayLevel := target x,
                       pending := filter (\<lambda>y. tid y \<noteq> tid x) (pending s)\<rparr>"
proof -
  show x: "x \<in> set (pending s)" "tid x = h"
    using assms by (auto simp: find_Some_iff)
  show "fireTimer h s = s\<lparr>displayLevel := target x,
                       pending := filter (\<lambda>y. tid y \<noteq> tid x) (pending s)\<rparr>"
    using assms x(2) by (simp add: fireTimer_def)
qed

lemma dl_wf_fired:
  assumes "dl_wf s"
  shows "dl_wf (s\<lparr>displayLevel := l, displayLevelRef := l,
                  pending := filter P (pending s)\<rparr>)"
  using assms by (simp add: dl_wf_def owned_def list_all_iff distinct_map_filter)

lemma inv_fire:
  assumes "reveal_inv t s" "t \<le> t'" "enabled t' (TimerFires h) s"
  shows "reveal_inv t' (syncDisplayLevelRef (fireTimer h s)) \<and>
         (\<exists>x \<in> set (pending s). tid x = h \<and> displayLevel (fireTimer h s) = target x \<and>
            (target x = 2 \<and> displayLevel s = 1 \<or> target x = 3 \<and> displayLevel s = 2 \<or>
             target x = 0))"
proof -
  have wf: "dl_wf s" and ph: "phases (pending s) (displayLevel s)" and pr: "prompt t (pending s)"
    and fc: "fresh_click t (lastMouseDownLevel s) (pending s) (displayLevel s)"
    using assms(1) by (simp_all add: reveal_inv_def)
  from assms(3) obtain x where f: "find (\<lambda>x. tid x = h) (pending s) = Some x"
    and now: "due x \<le> t'" and first: "\<forall>y \<in> set (pending s). due x \<le> due y"
    by (auto simp: list_all_iff split: option.splits)
  note x = fireTimer_found [OF f]
  let ?q = "filter (\<lambda>y. tid y \<noteq> tid x) (pending s)"
  let ?s' = "syncDisplayLevelRef (fireTimer h s)"
  have e: "?s' = s\<lparr>displayLevel := target x, displayLevelRef := target x, pending := ?q\<rparr>"
    by (simp add: x(3) syncDisplayLevelRef_def)
  have q: "set ?q = set (pending s) - {x}" by (rule set_remove_fired [OF wf x(1)])
  have u: "\<forall>y \<in> set (pending s). target y = target x \<longrightarrow> y = x"
    using wf_unique [OF wf x(1)] by simp
  have k: "\<forall>y \<in> set (pending s). target y = 0 \<or> target y = 2 \<or> target y = 3"
    using wf_targets [OF wf] by simp
  note pf = phases_fire [OF ph x(1) first u k q]
  have 1: "dl_wf ?s'" unfolding e by (rule dl_wf_fired [OF wf])
  have 2: "phases (pending ?s') (displayLevel ?s')" unfolding e using pf by simp
  have 3: "prompt t' (pending ?s')" unfolding e
    using prompt_later [OF pr assms(2)] by (simp add: prompt_def)
  have le: "snd (lastMouseDownLevel s) \<le> t'" using fc assms(2) by (simp add: fresh_click_def)
  have "False" if c: "fst (lastMouseDownLevel s) = 0" "t' - snd (lastMouseDownLevel s) < 500"
  proof -
    have "t - snd (lastMouseDownLevel s) < 500" using c(2) assms(2) by simp
    then have "snd (lastMouseDownLevel s) + 3000 \<le> due x"
      using fc c(1) x(1) unfolding fresh_click_def by simp
    then show False using now c(2) by simp
  qed
  then have 4: "fresh_click t' (lastMouseDownLevel ?s') (pending ?s') (displayLevel ?s')"
    unfolding e using le by (auto simp add: fresh_click_def)
  have 5: "displayLevel (fireTimer h s) = target x" by (simp add: x(3))
  have inv: "reveal_inv t' ?s'" unfolding reveal_inv_def using 1 2 3 4 by simp
  have "tid x = h \<and> displayLevel (fireTimer h s) = target x \<and>
            (target x = 2 \<and> displayLevel s = 1 \<or> target x = 3 \<and> displayLevel s = 2 \<or>
             target x = 0)"
    using 5 pf x(2) by simp
  with x(1) have "\<exists>x \<in> set (pending s). tid x = h \<and> displayLevel (fireTimer h s) = target x \<and>
            (target x = 2 \<and> displayLevel s = 1 \<or> target x = 3 \<and> displayLevel s = 2 \<or>
             target x = 0)"
    by (rule rev_bexI)
  with inv show ?thesis by (rule conjI)
qed

lemma inv_mounted: "500 \<le> t0 \<Longrightarrow> reveal_inv t0 mounted"
  using dl_wf_mounted
  by (simp add: reveal_inv_def phases_def prompt_def fresh_click_def mounted_def)

lemma sync_flushed: "displayLevelRef s = displayLevel s \<Longrightarrow> syncDisplayLevelRef s = s"
  by (simp add: syncDisplayLevelRef_def)

lemma sync_fields:
  "displayLevel (syncDisplayLevelRef s) = displayLevel s"
  "mouseIdleTimer (syncDisplayLevelRef s) = mouseIdleTimer s"
  "level2Timer (syncDisplayLevelRef s) = level2Timer s"
  "level3Timer (syncDisplayLevelRef s) = level3Timer s"
  "lastMouseDownLevel (syncDisplayLevelRef s) = lastMouseDownLevel s"
  "pending (syncDisplayLevelRef s) = pending s"
  "syncDisplayLevelRef (syncDisplayLevelRef s) = syncDisplayLevelRef s"
  by (simp_all add: syncDisplayLevelRef_def)

text \<open>A timer callback does not read the ref.\<close>

lemma sync_fire:
  "syncDisplayLevelRef (fireTimer h (syncDisplayLevelRef s)) = syncDisplayLevelRef (fireTimer h s)"
  by (simp add: fireTimer_def syncDisplayLevelRef_def split: option.splits)

lemma fire_level_sync:
  "displayLevel (fireTimer h (syncDisplayLevelRef s)) = displayLevel (fireTimer h s)"
  by (simp add: fireTimer_def syncDisplayLevelRef_def split: option.splits)

lemma enabled_sync: "enabled t e (syncDisplayLevelRef s) = enabled t e s"
  by (cases e) (simp_all add: syncDisplayLevelRef_def split: option.splits)

text \<open>The invariant holds of what the next flush makes of the state, as long as every mouse
  event finds the ref flushed.\<close>

lemma inv_dispatch:
  assumes "reveal_inv t (syncDisplayLevelRef s)" "t \<le> t'" "enabled t' e s" "flushed e s"
  shows "reveal_inv t' (syncDisplayLevelRef (dispatch t' e s))"
proof (cases e)
  case PointerMove
  then have "syncDisplayLevelRef s = s" using assms(4) by (simp add: sync_flushed)
  then show ?thesis using inv_move [OF assms(1,2)] PointerMove by simp
next
  case PointerDown
  then have "syncDisplayLevelRef s = s" using assms(4) by (simp add: sync_flushed)
  then show ?thesis using inv_down [OF assms(1,2)] PointerDown by simp
next
  case (SceneIndex i)
  then show ?thesis using inv_scene [OF assms(1,2)] by simp
next
  case (TimerFires h)
  have "enabled t' (TimerFires h) (syncDisplayLevelRef s)"
    using assms(3) TimerFires by (simp only: enabled_sync)
  from inv_fire [OF assms(1,2) this]
  have "reveal_inv t' (syncDisplayLevelRef (fireTimer h (syncDisplayLevelRef s)))" by simp
  then show ?thesis using TimerFires by (simp add: sync_fire)
next
  case Flush
  then show ?thesis using inv_later(1) [OF assms(1,2)] by (simp add: sync_fields)
qed

lemma run_inv:
  "reveal_inv t (syncDisplayLevelRef s) \<Longrightarrow> run t s es = Some (t', s') \<Longrightarrow> in_step s es \<Longrightarrow>
   reveal_inv t' (syncDisplayLevelRef s')"
proof (induction es arbitrary: t s)
  case Nil
  then show ?case by simp
next
  case (Cons a es)
  obtain u e where a: "a = (u, e)" by (cases a)
  from Cons.prems(2) a have ok: "t \<le> u" "enabled u e s"
    and rest: "run u (dispatch u e s) es = Some (t', s')"
    by (simp_all split: if_splits)
  from Cons.prems(3) a have fl: "flushed e s" and step: "in_step (dispatch u e s) es"
    by simp_all
  show ?case by (rule Cons.IH [OF inv_dispatch [OF Cons.prems(1) ok fl] rest step])
qed

lemma move_levels:
  assumes "dl_wf s"
  shows "displayLevel s = 0 \<and> displayLevel (handleMouseMove now s) = 1 \<or>
         1 \<le> displayLevel s \<and> displayLevel (handleMouseMove now s) = displayLevel s"
proof (cases "displayLevel s = 0")
  case True
  then show ?thesis by (simp add: handleMouseMove_hidden [OF assms True])
next
  case False
  then show ?thesis by (simp add: handleMouseMove_shown [OF assms False])
qed

lemma down_levels:
  assumes "dl_wf s"
  shows "displayLevel s = 0 \<and> displayLevel (handleMouseDown now s) = 3 \<or>
         1 \<le> displayLevel s \<and> displayLevel (handleMouseDown now s) = displayLevel s"
proof (cases "displayLevel s = 0")
  case True
  then show ?thesis by (simp add: handleMouseDown_hidden [OF assms True])
next
  case False
  then show ?thesis by (simp add: handleMouseDown_shown [OF assms False])
qed

lemma scene_levels:
  assumes "reveal_inv t s" "t \<le> t'"
  shows "displayLevel (sceneChangeEffect t' i s) = displayLevel s \<or>
         displayLevel s = 0 \<and> displayLevel (sceneChangeEffect t' i s) = 1 \<or>
         displayLevel s = 3 \<and> displayLevel (sceneChangeEffect t' i s) = 1 \<and>
           fst (lastMouseDownLevel s) = 0 \<and> t' - snd (lastMouseDownLevel s) < 500"
proof -
  have wf: "dl_wf s" and ph: "phases (pending s) (displayLevel s)"
    and fc: "fresh_click t (lastMouseDownLevel s) (pending s) (displayLevel s)"
    using assms(1) by (simp_all add: reveal_inv_def)
  have r: "displayLevelRef s = displayLevel s" using wf by (simp add: dl_wf_def)
  show ?thesis
  proof (cases i)
    case None
    then show ?thesis by (simp add: sceneChangeEffect_def)
  next
    case (Some idx)
    consider (same) "previousSceneIndex s = None \<or> previousSceneIndex s = Some idx"
      | (keep) p where "previousSceneIndex s = Some p" "p \<noteq> idx" "levelToCheck t' s \<noteq> 0"
      | (reveal) p where "previousSceneIndex s = Some p" "p \<noteq> idx" "levelToCheck t' s = 0"
      by (cases "previousSceneIndex s") auto
    then show ?thesis
    proof cases
      case same
      show ?thesis unfolding Some sceneChangeEffect_same [OF same] by simp
    next
      case keep
      show ?thesis unfolding Some sceneChangeEffect_keep [OF keep] by simp
    next
      case reveal
      have new: "displayLevel (sceneChangeEffect t' i s) = 1"
        unfolding Some sceneChangeEffect_reveal [OF wf reveal] by simp
      show ?thesis
      proof (cases "t' - snd (lastMouseDownLevel s) < 500")
        case True
        then have c: "fst (lastMouseDownLevel s) = 0" "t - snd (lastMouseDownLevel s) < 500"
          using assms(2) reveal(3) by (simp_all add: levelToCheck_def Let_def)
        then have "displayLevel s \<noteq> 0" "\<forall>x \<in> set (pending s). target x = 0"
          using fc unfolding fresh_click_def by simp_all
        then have "displayLevel s = 1 \<or> displayLevel s = 3"
          using ph unfolding phases_def by simp
        then show ?thesis using new c(1) True by auto
      next
        case False
        then have "displayLevel s = 0" using reveal(3) r by (simp add: levelToCheck_def Let_def)
        then show ?thesis using new by simp
      qed
    qed
  qed
qed

lemma fire_levels:
  assumes "reveal_inv t s" "t \<le> t'" "enabled t' (TimerFires h) s"
  shows "displayLevel s = 1 \<and> displayLevel (fireTimer h s) = 2 \<and> level2Timer s = Some h \<or>
         displayLevel s = 2 \<and> displayLevel (fireTimer h s) = 3 \<and> level3Timer s = Some h \<or>
         displayLevel (fireTimer h s) = 0 \<and> mouseIdleTimer s = Some h"
proof -
  have wf: "dl_wf s" using assms(1) by (simp add: reveal_inv_def)
  from inv_fire [OF assms] obtain x where x: "x \<in> set (pending s)" "tid x = h"
    "displayLevel (fireTimer h s) = target x"
    "target x = 2 \<and> displayLevel s = 1 \<or> target x = 3 \<and> displayLevel s = 2 \<or> target x = 0"
    by auto
  have "owned s x" using wf_owned [OF wf x(1)] by simp
  then have "(mouseIdleTimer s = Some h) = (target x = 0)"
    "(level2Timer s = Some h) = (target x = 2)" "(level3Timer s = Some h) = (target x = 3)"
    using x(2) by (simp_all add: owned_def)
  then show ?thesis using x(3,4) by auto
qed

subsection \<open>Which changes of level a run can make\<close>

text \<open>
  C4, as the code has it. Take a run from the mount (with the clock at 500 or more, as
  \<open>Date.now()\<close> is) in which each mouse event finds the ref flushed, and a next event that
  does too. Then the event changes the level in one of these ways only. A pointer move takes
  level 0 to 1 and leaves every other level. A pointer down takes level 0 to 3 and leaves
  every other level. A timer takes level 1 to 2 (the level-2 timer), level 2 to 3 (the
  level-3 timer), or any level to 0 (the idle timer). The scene change effect leaves the
  level, or takes level 0 to 1, or takes level 3 to 1 when the snapshot of a pointer down
  less than 500 ms old holds level 0. A flush leaves the level. So the level rises along
  0, 1, 2, 3 with the pointer-down jump as the one skip, and it falls by the idle reset and
  by the scene change after a click, not by the idle reset alone.
\<close>

theorem level_transitions:
  assumes "500 \<le> t0" and "run t0 mounted es = Some (t, s)" and "in_step mounted es"
    and "t \<le> t'" and "enabled t' e s" and "flushed e s"
  shows "let old = displayLevel s; new = displayLevel (dispatch t' e s) in
     (case e of
        PointerMove \<Rightarrow> old = 0 \<and> new = 1 \<or> 1 \<le> old \<and> new = old
      | PointerDown \<Rightarrow> old = 0 \<and> new = 3 \<or> 1 \<le> old \<and> new = old
      | SceneIndex i \<Rightarrow>
          new = old \<or> old = 0 \<and> new = 1 \<or>
          old = 3 \<and> new = 1 \<and> fst (lastMouseDownLevel s) = 0 \<and>
            t' - snd (lastMouseDownLevel s) < 500
      | TimerFires h \<Rightarrow>
          old = 1 \<and> new = 2 \<and> level2Timer s = Some h \<or>
          old = 2 \<and> new = 3 \<and> level3Timer s = Some h \<or>
          new = 0 \<and> mouseIdleTimer s = Some h
      | Flush \<Rightarrow> new = old)"
proof -
  have "reveal_inv t0 (syncDisplayLevelRef mounted)"
    using inv_mounted [OF assms(1)] sync_id [OF dl_wf_mounted] by simp
  then have inv: "reveal_inv t (syncDisplayLevelRef s)"
    using assms(2,3) by (rule run_inv)
  show ?thesis
  proof (cases e)
    case PointerMove
    then have "syncDisplayLevelRef s = s" using assms(6) by (simp add: sync_flushed)
    then have "dl_wf s" using inv by (simp add: reveal_inv_def)
    then show ?thesis using move_levels [of s t'] PointerMove by simp
  next
    case PointerDown
    then have "syncDisplayLevelRef s = s" using assms(6) by (simp add: sync_flushed)
    then have "dl_wf s" using inv by (simp add: reveal_inv_def)
    then show ?thesis using down_levels [of s t'] PointerDown by simp
  next
    case (SceneIndex i)
    then show ?thesis
      using scene_levels [OF inv assms(4), of i] by (simp add: sync_fields)
  next
    case (TimerFires h)
    have "enabled t' (TimerFires h) (syncDisplayLevelRef s)"
      using assms(5) TimerFires by (simp only: enabled_sync)
    from fire_levels [OF inv assms(4) this] TimerFires
    show ?thesis by (simp add: sync_fields fire_level_sync)
  next
    case Flush
    then show ?thesis by (simp add: sync_fields)
  qed
qed

lemma moved_eq:
  "moved =
     \<lparr>displayLevel = 1, displayLevelRef = 1, mouseIdleTimer = Some 3, level2Timer = Some 1,
      level3Timer = Some 2, previousSceneIndex = None, lastMouseDownLevel = (0, 0),
      pending = [Timer 1 1200 2, Timer 2 1500 3, Timer 3 4000 0], nextHandle = 4,
      listeners = [''mousemove'', ''mousedown'']\<rparr>"
  by (simp add: moved_def dl_eval)

lemma run_clicked:
  "run 1000 mounted [(1000, SceneIndex (Some 4)), (2000, PointerDown), (2050, Flush)] =
     Some (2050, clicked)"
  by (simp add: clicked_eq dl_eval)

lemma in_step_clicked:
  "in_step mounted [(1000, SceneIndex (Some 4)), (2000, PointerDown), (2050, Flush)]"
  by (simp add: dl_eval)

lemma run_moved: "run 1000 mounted [(1000, PointerMove), (1050, Flush)] = Some (1050, moved)"
  by (simp add: moved_eq dl_eval)

lemma in_step_moved: "in_step mounted [(1000, PointerMove), (1050, Flush)]"
  by (simp add: dl_eval)

theorem level_transitions_witness:
  "(500::int) \<le> 1000 \<and>
   run 1000 mounted [(1000, SceneIndex (Some 4)), (2000, PointerDown), (2050, Flush)] =
     Some (2050, clicked) \<and>
   in_step mounted [(1000, SceneIndex (Some 4)), (2000, PointerDown), (2050, Flush)] \<and>
   (2050::int) \<le> 2100 \<and> enabled 2100 (SceneIndex (Some 5)) clicked \<and>
   flushed (SceneIndex (Some 5)) clicked \<and>
   displayLevel clicked = 3 \<and> displayLevel (dispatch 2100 (SceneIndex (Some 5)) clicked) = 1 \<and>
   lastMouseDownLevel clicked = (0, 2000) \<and>
   run 1000 mounted [(1000, PointerMove), (1050, Flush)] = Some (1050, moved) \<and>
   in_step mounted [(1000, PointerMove), (1050, Flush)] \<and>
   (1050::int) \<le> 1200 \<and> enabled 1200 (TimerFires 1) moved \<and> flushed (TimerFires 1) moved \<and>
   displayLevel moved = 1 \<and> displayLevel (dispatch 1200 (TimerFires 1) moved) = 2 \<and>
   (1050::int) \<le> 1100 \<and> enabled 1100 PointerMove moved \<and> flushed PointerMove moved \<and>
   displayLevel (dispatch 1100 PointerMove moved) = 1"
proof -
  have a: "(500::int) \<le> 1000" "(2050::int) \<le> 2100" "(1050::int) \<le> 1200" "(1050::int) \<le> 1100"
    by simp_all
  have e1: "enabled 2100 (SceneIndex (Some 5)) clicked" by simp
  have e2: "enabled 1200 (TimerFires 1) moved" by (simp add: moved_eq)
  have e3: "enabled 1100 PointerMove moved" by (simp add: moved_eq)
  have f1: "flushed (SceneIndex (Some 5)) clicked" by simp
  have f2: "flushed (TimerFires 1) moved" by simp
  have f3: "flushed PointerMove moved" by (simp add: moved_eq)
  have c: "displayLevel clicked = 3" "lastMouseDownLevel clicked = (0, 2000)"
    by (simp_all add: clicked_eq)
  have m: "displayLevel moved = 1" "level3Timer moved = Some 2" "mouseIdleTimer moved = Some 3"
    by (simp_all add: moved_eq)
  have d: "displayLevel (dispatch 2100 (SceneIndex (Some 5)) clicked) = 1"
    by (simp add: clicked_eq dl_eval)
  show ?thesis
    using a e1 e2 e3 f1 f2 f3 c m d run_clicked run_moved in_step_clicked in_step_moved
      level_transitions [OF a(1) run_clicked in_step_clicked a(2) e1 f1]
      level_transitions [OF a(1) run_moved in_step_moved a(3) e2 f2]
      level_transitions [OF a(1) run_moved in_step_moved a(4) e3 f3]
    by (simp add: Let_def)
qed

text \<open>The level falls from 3 to 1 without any timer: a click at level 0, which finds the
  ref flushed, and a scene change 100 ms later.\<close>

theorem level_transitions_counterexample:
  "map_option (displayLevel \<circ> snd)
     (run 1000 mounted [(1000, SceneIndex (Some 4)), (2000, PointerDown)]) = Some 3 \<and>
   map_option (displayLevel \<circ> snd)
     (run 1000 mounted [(1000, SceneIndex (Some 4)), (2000, PointerDown),
                        (2100, SceneIndex (Some 5))]) = Some 1"
  by (simp add: dl_eval)


section \<open>Properties of useNotification\<close>

lemma nt_wf_mounted: "nt_wf nt_mounted"
  by (simp add: nt_wf_def nt_mounted_def)

lemma nt_cleared:
  assumes "nt_wf s"
  shows "(case notificationTimer s of
            None \<Rightarrow> s
          | Some h \<Rightarrow> if h = 0 then s
                      else s\<lparr>nt_pending := filter (\<lambda>x. fst x \<noteq> h) (nt_pending s)\<rparr>)
         = s\<lparr>nt_pending := []\<rparr>"
proof -
  have own: "\<forall>x \<in> set (nt_pending s). 0 < fst x \<and> notificationTimer s = Some (fst x)"
    using assms by (simp add: nt_wf_def list_all_iff)
  show ?thesis
  proof (cases "notificationTimer s")
    case None
    then have "nt_pending s = []" using own by (cases "nt_pending s") auto
    then show ?thesis using None by simp
  next
    case (Some h)
    then have all: "\<forall>x \<in> set (nt_pending s). fst x = h \<and> 0 < h" using own by auto
    then have "filter (\<lambda>x. fst x \<noteq> h) (nt_pending s) = []" by (simp add: filter_empty_conv)
    moreover have "h = 0 \<Longrightarrow> nt_pending s = []" using all by (cases "nt_pending s") auto
    ultimately show ?thesis using Some by simp
  qed
qed

lemma showNotification_eq:
  assumes "nt_wf s"
  shows "showNotification now message duration s =
     \<lparr>notification = Some message, notificationTimer = Some (nt_nextHandle s),
      nt_pending = [(nt_nextHandle s, now + (case duration of None \<Rightarrow> 2000 | Some d \<Rightarrow> d))],
      nt_nextHandle = Suc (nt_nextHandle s)\<rparr>"
  unfolding showNotification_def nt_cleared [OF assms] by (simp add: Let_def)

lemma nt_wf_expire: "nt_wf s \<Longrightarrow> nt_wf (expire h s)"
  by (simp add: nt_wf_def expire_def list_all_iff distinct_map_filter)

text \<open>Every state the hook reaches from its mount has its pending timers in the ref.\<close>

lemma nt_wf_show: "nt_wf s \<Longrightarrow> nt_wf (showNotification now message duration s)"
  by (simp add: showNotification_eq) (simp add: nt_wf_def)

lemma nt_wf_run: "nt_wf s \<Longrightarrow> nt_wf (nt_run s es)"
proof (induction es arbitrary: s)
  case Nil
  then show ?case by simp
next
  case (Cons a es)
  obtain now e where a: "a = (now, e)" by (cases a)
  have "nt_wf (nt_step now e s)"
    using Cons.prems by (cases e) (simp_all add: nt_wf_show nt_wf_expire)
  then show ?case using Cons.IH a by simp
qed

text \<open>
  C9. At most one expiry timer is pending when the ref holds every pending one, and
  \<open>showNotification\<close> keeps it so: afterwards the message shown is the new one, the one
  pending expiry timer is the new one, due after the given duration (2000 ms when none is
  given), and it sets the message back to none when it runs; the timer of the message
  before is no longer pending, so no other handle changes anything by firing.
\<close>

theorem showNotification_supersedes:
  assumes "nt_wf s"
  shows "let s' = showNotification now message duration s;
             d = (case duration of None \<Rightarrow> 2000 | Some d \<Rightarrow> d)
         in length (nt_pending s) \<le> 1 \<and>
            notification s' = Some message \<and>
            notificationTimer s' = Some (nt_nextHandle s) \<and>
            nt_pending s' = [(nt_nextHandle s, now + d)] \<and>
            nt_nextHandle s' = Suc (nt_nextHandle s) \<and>
            notification (expire (nt_nextHandle s) s') = None \<and>
            nt_pending (expire (nt_nextHandle s) s') = [] \<and>
            (\<forall>h. h \<noteq> nt_nextHandle s \<longrightarrow> expire h s' = s') \<and>
            nt_wf s'"
proof -
  have own: "\<forall>x \<in> set (nt_pending s). notificationTimer s = Some (fst x)"
    and d: "distinct (map fst (nt_pending s))" and pos: "0 < nt_nextHandle s"
    using assms by (simp_all add: nt_wf_def list_all_iff)
  have one: "length (nt_pending s) \<le> 1"
  proof (cases "nt_pending s")
    case Nil
    then show ?thesis by simp
  next
    case (Cons x xs)
    have "xs = []"
    proof (cases xs)
      case Nil
      then show ?thesis .
    next
      case (Cons y ys)
      then have "fst y = fst x" using own \<open>nt_pending s = x # xs\<close> by auto
      then show ?thesis using d \<open>nt_pending s = x # xs\<close> Cons by auto
    qed
    then show ?thesis using Cons by simp
  qed
  show ?thesis
    unfolding Let_def showNotification_eq [OF assms]
    using one pos by (simp add: expire_def nt_wf_def)
qed

theorem showNotification_supersedes_witness:
  "nt_wf (showNotification 0 ''Auto-play ON'' None nt_mounted) \<and>
   nt_pending (showNotification 0 ''Auto-play ON'' None nt_mounted) = [(1, 2000)] \<and>
   notification (showNotification 500 ''Auto-play OFF'' (Some 1000)
                   (showNotification 0 ''Auto-play ON'' None nt_mounted)) = Some ''Auto-play OFF'' \<and>
   nt_pending (showNotification 500 ''Auto-play OFF'' (Some 1000)
                   (showNotification 0 ''Auto-play ON'' None nt_mounted)) = [(2, 1500)] \<and>
   notification (expire 2 (showNotification 500 ''Auto-play OFF'' (Some 1000)
                   (showNotification 0 ''Auto-play ON'' None nt_mounted))) = None \<and>
   expire 1 (showNotification 500 ''Auto-play OFF'' (Some 1000)
               (showNotification 0 ''Auto-play ON'' None nt_mounted))
     = showNotification 500 ''Auto-play OFF'' (Some 1000)
         (showNotification 0 ''Auto-play ON'' None nt_mounted)"
proof -
  let ?a = "showNotification 0 ''Auto-play ON'' None nt_mounted"
  have n: "nt_nextHandle nt_mounted = 1" by (simp add: nt_mounted_def)
  have a: "nt_wf ?a" "nt_pending ?a = [(1, 2000)]" "nt_nextHandle ?a = 2"
    using showNotification_supersedes [OF nt_wf_mounted, of 0 "''Auto-play ON''" None] n
    by (simp_all add: Let_def nt_wf_def)
  show ?thesis
    using a showNotification_supersedes [OF a(1), of 500 "''Auto-play OFF''" "Some 1000"]
    by (simp add: Let_def)
qed


section \<open>Properties of useAutoPlay\<close>

lemma ap_wf_mounted: "ap_wf ap_mounted"
  by (simp add: ap_wf_def ap_mounted_def)

lemma ap_wf_cases:
  assumes "ap_wf s"
  shows "\<not> isPlaying s \<and> intervals s = [] \<and> effectCleanup s = None \<or>
         isPlaying s \<and> (\<exists>h d. h < ap_nextHandle s \<and> effectCleanup s = Some h \<and>
            intervals s = [Interval h (2400 / speed s) d (reverse s)])"
proof (cases "intervals s")
  case Nil
  then show ?thesis using assms by (simp add: ap_wf_def)
next
  case (Cons x xs)
  then have xs: "xs = []" using assms by (simp add: ap_wf_def)
  obtain h p d b where x: "x = Interval h p d b" by (cases x)
  have "p = 2400 / speed s" "b = reverse s" "h < ap_nextHandle s" "effectCleanup s = Some h"
    "isPlaying s"
    using assms Cons x by (simp_all add: ap_wf_def)
  then show ?thesis using Cons xs x by simp
qed

lemma restart:
  assumes "ap_wf s" "isPlaying s"
  shows "autoPlayEffect now (runCleanup (s\<lparr>speed := m\<rparr>)) =
           s\<lparr>speed := m,
             intervals := [Interval (ap_nextHandle s) (2400 / m) (now + 2400 / m) (reverse s)],
             ap_nextHandle := Suc (ap_nextHandle s),
             effectCleanup := Some (ap_nextHandle s)\<rparr>"
    and "autoPlayEffect now (runCleanup (s\<lparr>reverse := b\<rparr>)) =
           s\<lparr>reverse := b,
             intervals := [Interval (ap_nextHandle s) (2400 / speed s) (now + 2400 / speed s) b],
             ap_nextHandle := Suc (ap_nextHandle s),
             effectCleanup := Some (ap_nextHandle s)\<rparr>"
    and "autoPlayEffect now (runCleanup (s\<lparr>isPlaying := False\<rparr>)) =
           s\<lparr>isPlaying := False, intervals := [], effectCleanup := None\<rparr>"
proof -
  from ap_wf_cases [OF assms(1)] assms(2) obtain h d where
    "effectCleanup s = Some h" "intervals s = [Interval h (2400 / speed s) d (reverse s)]"
    by auto
  then show "autoPlayEffect now (runCleanup (s\<lparr>speed := m\<rparr>)) =
           s\<lparr>speed := m,
             intervals := [Interval (ap_nextHandle s) (2400 / m) (now + 2400 / m) (reverse s)],
             ap_nextHandle := Suc (ap_nextHandle s),
             effectCleanup := Some (ap_nextHandle s)\<rparr>"
    and "autoPlayEffect now (runCleanup (s\<lparr>reverse := b\<rparr>)) =
           s\<lparr>reverse := b,
             intervals := [Interval (ap_nextHandle s) (2400 / speed s) (now + 2400 / speed s) b],
             ap_nextHandle := Suc (ap_nextHandle s),
             effectCleanup := Some (ap_nextHandle s)\<rparr>"
    and "autoPlayEffect now (runCleanup (s\<lparr>isPlaying := False\<rparr>)) =
           s\<lparr>isPlaying := False, intervals := [], effectCleanup := None\<rparr>"
    using assms(2) by (simp_all add: autoPlayEffect_def runCleanup_def Let_def)
qed

lemma idle_effect:
  assumes "ap_wf s" "\<not> isPlaying s"
  shows "autoPlayEffect now (runCleanup (s\<lparr>speed := m\<rparr>)) = s\<lparr>speed := m\<rparr>"
    and "autoPlayEffect now (runCleanup (s\<lparr>reverse := b\<rparr>)) = s\<lparr>reverse := b\<rparr>"
    and "autoPlayEffect now (runCleanup (s\<lparr>isPlaying := True\<rparr>)) =
           s\<lparr>isPlaying := True,
             intervals := [Interval (ap_nextHandle s) (2400 / speed s) (now + 2400 / speed s)
                             (reverse s)],
             ap_nextHandle := Suc (ap_nextHandle s),
             effectCleanup := Some (ap_nextHandle s)\<rparr>"
proof -
  from ap_wf_cases [OF assms(1)] assms(2) have "effectCleanup s = None" "intervals s = []"
    by auto
  then show "autoPlayEffect now (runCleanup (s\<lparr>speed := m\<rparr>)) = s\<lparr>speed := m\<rparr>"
    and "autoPlayEffect now (runCleanup (s\<lparr>reverse := b\<rparr>)) = s\<lparr>reverse := b\<rparr>"
    and "autoPlayEffect now (runCleanup (s\<lparr>isPlaying := True\<rparr>)) =
           s\<lparr>isPlaying := True,
             intervals := [Interval (ap_nextHandle s) (2400 / speed s) (now + 2400 / speed s)
                             (reverse s)],
             ap_nextHandle := Suc (ap_nextHandle s),
             effectCleanup := Some (ap_nextHandle s)\<rparr>"
    using assms(2) by (simp_all add: autoPlayEffect_def runCleanup_def Let_def)
qed

lemma setSpeed_playing:
  assumes "ap_wf s" "isPlaying s" "m \<noteq> speed s"
  shows "setSpeed now m s =
           s\<lparr>speed := m,
             intervals := [Interval (ap_nextHandle s) (2400 / m) (now + 2400 / m) (reverse s)],
             ap_nextHandle := Suc (ap_nextHandle s),
             effectCleanup := Some (ap_nextHandle s)\<rparr>"
  using assms(3) by (simp add: setSpeed_def rerender_def restart(1) [OF assms(1,2)])

lemma setSpeed_same: "setSpeed now (speed s) s = s"
  by (simp add: setSpeed_def rerender_def)

lemma togglePlay_eq:
  assumes "ap_wf s"
  shows "isPlaying s \<Longrightarrow>
           togglePlay now s = s\<lparr>isPlaying := False, intervals := [], effectCleanup := None\<rparr>"
    and "\<not> isPlaying s \<Longrightarrow>
           togglePlay now s =
             s\<lparr>isPlaying := True,
               intervals := [Interval (ap_nextHandle s) (2400 / speed s) (now + 2400 / speed s)
                               (reverse s)],
               ap_nextHandle := Suc (ap_nextHandle s),
               effectCleanup := Some (ap_nextHandle s)\<rparr>"
  using restart(3) [OF assms] idle_effect(3) [OF assms]
  by (simp_all add: togglePlay_def rerender_def)

lemma ap_wf_setSpeed: "ap_wf s \<Longrightarrow> ap_wf (setSpeed now m s)"
proof -
  assume wf: "ap_wf s"
  show ?thesis
  proof (cases "m = speed s")
    case True
    then show ?thesis using wf by (simp add: setSpeed_same)
  next
    case False
    show ?thesis
    proof (cases "isPlaying s")
      case True
      show ?thesis unfolding setSpeed_playing [OF wf True False]
        using wf True by (simp add: ap_wf_def)
    next
      case f: False
      have "setSpeed now m s = s\<lparr>speed := m\<rparr>"
        using False by (simp add: setSpeed_def rerender_def idle_effect(1) [OF wf f])
      then show ?thesis using wf f by (simp add: ap_wf_def)
    qed
  qed
qed

lemma ap_wf_togglePlay: "ap_wf s \<Longrightarrow> ap_wf (togglePlay now s)"
  using togglePlay_eq [of s now] by (cases "isPlaying s") (simp_all add: ap_wf_def)

lemma ap_wf_toggleReverse: "ap_wf s \<Longrightarrow> ap_wf (toggleReverse now s)"
proof -
  assume wf: "ap_wf s"
  show ?thesis
  proof (cases "isPlaying s")
    case True
    have "toggleReverse now s = s\<lparr>reverse := \<not> reverse s,
             intervals := [Interval (ap_nextHandle s) (2400 / speed s) (now + 2400 / speed s)
                             (\<not> reverse s)],
             ap_nextHandle := Suc (ap_nextHandle s),
             effectCleanup := Some (ap_nextHandle s)\<rparr>"
      by (simp add: toggleReverse_def rerender_def restart(2) [OF wf True])
    then show ?thesis using wf True by (simp add: ap_wf_def)
  next
    case False
    have "toggleReverse now s = s\<lparr>reverse := \<not> reverse s\<rparr>"
      by (simp add: toggleReverse_def rerender_def idle_effect(2) [OF wf False])
    then show ?thesis using wf False by (simp add: ap_wf_def)
  qed
qed

lemma ap_wf_pause: "ap_wf s \<Longrightarrow> ap_wf (pause now d s)"
  by (simp add: ap_wf_def pause_def)

lemma ap_wf_tick: "ap_wf s \<Longrightarrow> ap_wf (snd (tick h t s))"
proof -
  assume wf: "ap_wf s"
  from ap_wf_cases [OF wf] show ?thesis
  proof
    assume "\<not> isPlaying s \<and> intervals s = [] \<and> effectCleanup s = None"
    then show ?thesis using wf by (simp add: tick_def)
  next
    assume "isPlaying s \<and> (\<exists>h d. h < ap_nextHandle s \<and> effectCleanup s = Some h \<and>
            intervals s = [Interval h (2400 / speed s) d (reverse s)])"
    then obtain k d where "isPlaying s" "k < ap_nextHandle s" "effectCleanup s = Some k"
      "intervals s = [Interval k (2400 / speed s) d (reverse s)]" by auto
    then show ?thesis using wf by (simp add: tick_def ap_wf_def)
  qed
qed

text \<open>Every state the hook reaches from its mount has its interval as the effect left
  it.\<close>

lemma ap_wf_run: "ap_wf s \<Longrightarrow> ap_wf (ap_run s es)"
proof (induction es arbitrary: s)
  case Nil
  then show ?case by simp
next
  case (Cons a es)
  obtain now e where a: "a = (now, e)" by (cases a)
  have "ap_wf (ap_step now e s)"
    using Cons.prems
    by (cases e)
      (simp_all add: ap_wf_togglePlay ap_wf_toggleReverse ap_wf_setSpeed ap_wf_pause ap_wf_tick)
  then show ?case using Cons.IH a by simp
qed

lemma tick_single:
  assumes "intervals s = [Interval k p e b]"
  shows "tick k t s = (tickCallback t b s, s\<lparr>intervals := [Interval k p (e + p) b]\<rparr>)"
  using assms by (simp add: tick_def)

lemma playing_eq:
  "playing =
     \<lparr>isPlaying = True, speed = 1, reverse = False, pausedUntil = 0,
      intervals = [Interval 1 2400 2400 False], effectCleanup = Some 1, ap_nextHandle = 2\<rparr>"
  by (simp add: playing_def togglePlay_def rerender_def autoPlayEffect_def runCleanup_def
      ap_mounted_def Let_def)

text \<open>
  C5. With a positive speed. While playing exactly one interval is pending, with the period
  2400 / speed and the current direction. When the host runs it at time \<open>t\<close>, the callback
  is skipped if \<open>t\<close> is before \<open>pausedUntil\<close>, and otherwise \<open>onPrev\<close> is called when
  \<open>reverse\<close> is set and \<open>onNext\<close> when it is not; in both cases the interval stays pending,
  armed one period later. \<open>pause\<close> sets \<open>pausedUntil\<close> to now + duration and leaves the
  interval alone, so afterwards a tick is skipped exactly when its time is before
  now + duration. While not playing no interval is pending, so no tick fires; \<open>togglePlay\<close>
  then starts one with its first tick one period later, and while playing it clears it.
\<close>

theorem autoPlay_ticks:
  assumes "ap_wf s" and "0 < speed s"
  shows "(isPlaying s \<longrightarrow>
            (\<exists>k e. intervals s = [Interval k (2400 / speed s) e (reverse s)] \<and>
               tick k t s =
                 (if t < pausedUntil s then None
                  else if reverse s then Some OnPrev else Some OnNext,
                  s\<lparr>intervals := [Interval k (2400 / speed s) (e + 2400 / speed s)
                                     (reverse s)]\<rparr>) \<and>
               (fst (tick k t (pause now d s)) = None \<longleftrightarrow> t < now + d) \<and>
               intervals (snd (tick k t (pause now d s))) =
                 [Interval k (2400 / speed s) (e + 2400 / speed s) (reverse s)]) \<and>
            pausedUntil (pause now d s) = now + d \<and>
            intervals (pause now d s) = intervals s \<and>
            intervals (togglePlay now s) = []) \<and>
         (\<not> isPlaying s \<longrightarrow>
            intervals s = [] \<and> tick h t s = (None, s) \<and>
            intervals (togglePlay now s) =
              [Interval (ap_nextHandle s) (2400 / speed s) (now + 2400 / speed s) (reverse s)])"
proof (cases "isPlaying s")
  case True
  from ap_wf_cases [OF assms(1)] True obtain k e where
    i: "intervals s = [Interval k (2400 / speed s) e (reverse s)]" by auto
  have p: "intervals (pause now d s) = [Interval k (2400 / speed s) e (reverse s)]"
    using i by (simp add: pause_def)
  have 1: "tick k t s =
                 (if t < pausedUntil s then None
                  else if reverse s then Some OnPrev else Some OnNext,
                  s\<lparr>intervals := [Interval k (2400 / speed s) (e + 2400 / speed s)
                                     (reverse s)]\<rparr>)"
    unfolding tick_single [OF i] by (simp add: tickCallback_def)
  have 2: "fst (tick k t (pause now d s)) = None \<longleftrightarrow> t < now + d"
    unfolding tick_single [OF p] by (simp add: tickCallback_def pause_def)
  have 3: "intervals (snd (tick k t (pause now d s))) =
                 [Interval k (2400 / speed s) (e + 2400 / speed s) (reverse s)]"
    unfolding tick_single [OF p] by simp
  have ex: "\<exists>k e. intervals s = [Interval k (2400 / speed s) e (reverse s)] \<and>
               tick k t s =
                 (if t < pausedUntil s then None
                  else if reverse s then Some OnPrev else Some OnNext,
                  s\<lparr>intervals := [Interval k (2400 / speed s) (e + 2400 / speed s)
                                     (reverse s)]\<rparr>) \<and>
               (fst (tick k t (pause now d s)) = None \<longleftrightarrow> t < now + d) \<and>
               intervals (snd (tick k t (pause now d s))) =
                 [Interval k (2400 / speed s) (e + 2400 / speed s) (reverse s)]"
    using i 1 2 3 by (intro exI conjI)
  have 4: "pausedUntil (pause now d s) = now + d" "intervals (pause now d s) = intervals s"
    by (simp_all add: pause_def)
  have 5: "intervals (togglePlay now s) = []"
    by (simp add: togglePlay_eq(1) [OF assms(1) True])
  show ?thesis using True ex 4 5 by simp
next
  case False
  from ap_wf_cases [OF assms(1)] False have i: "intervals s = []" by auto
  then have "tick h t s = (None, s)" by (simp add: tick_def)
  then show ?thesis using False i by (simp add: togglePlay_eq(2) [OF assms(1) False])
qed

theorem autoPlay_ticks_witness:
  "ap_wf playing \<and> 0 < speed playing \<and> isPlaying playing \<and>
   intervals playing = [Interval 1 2400 2400 False] \<and>
   fst (tick 1 2400 playing) = Some OnNext \<and>
   intervals (snd (tick 1 2400 playing)) = [Interval 1 2400 4800 False] \<and>
   fst (tick 1 2400 (pause 2000 1000 playing)) = None \<and>
   fst (tick 1 4800 (pause 2000 1000 playing)) = Some OnNext \<and>
   ap_wf ap_mounted \<and> 0 < speed ap_mounted \<and> \<not> isPlaying ap_mounted \<and>
   intervals ap_mounted = [] \<and> tick 1 2400 ap_mounted = (None, ap_mounted)"
proof -
  have w: "ap_wf playing" unfolding playing_def by (rule ap_wf_togglePlay [OF ap_wf_mounted])
  have m: "0 < speed ap_mounted" "\<not> isPlaying ap_mounted" by (simp_all add: ap_mounted_def)
  have p: "0 < speed playing" "isPlaying playing" "pausedUntil playing = 0" "\<not> reverse playing"
    "intervals playing = [Interval 1 2400 2400 False]" "speed playing = 1"
    by (simp_all add: playing_eq)
  have z: "0 < speed (pause 2000 1000 playing)" "isPlaying (pause 2000 1000 playing)"
    "pausedUntil (pause 2000 1000 playing) = 3000" "\<not> reverse (pause 2000 1000 playing)"
    "intervals (pause 2000 1000 playing) = [Interval 1 2400 2400 False]"
    by (simp_all add: pause_def playing_eq)
  show ?thesis
    using w m p z ap_wf_mounted
      autoPlay_ticks [OF w p(1), of 2400 2000 1000 0]
      autoPlay_ticks [OF ap_wf_pause [OF w] z(1), of 4800 0 0 0]
      autoPlay_ticks [OF ap_wf_mounted m(1), of 2400 0 0 1]
    by auto
qed

text \<open>
  C6, as the code has it. \<open>setSpeed(m)\<close> while playing, with \<open>m\<close> positive and different
  from the current speed: afterwards the one pending interval is a new one with the period
  2400 / m and its first tick 2400 / m after the call; the old interval is not pending any
  more. A further change to another speed gives again an interval whose next tick depends
  on the time of that change and the new speed only.
\<close>

theorem setSpeed_restarts:
  assumes "ap_wf s" and "isPlaying s" and "0 < m" and "m \<noteq> speed s"
  shows "let s' = setSpeed now m s in
           speed s' = m \<and> isPlaying s' \<and> ap_wf s' \<and>
           intervals s' = [Interval (ap_nextHandle s) (2400 / m) (now + 2400 / m) (reverse s)] \<and>
           list_all (\<lambda>x. iid x \<notin> set (map iid (intervals s'))) (intervals s) \<and>
           (0 < m' \<and> m' \<noteq> m \<longrightarrow>
              intervals (setSpeed now' m' s') =
                [Interval (Suc (ap_nextHandle s)) (2400 / m') (now' + 2400 / m') (reverse s)])"
proof -
  let ?s' = "setSpeed now m s"
  note e = setSpeed_playing [OF assms(1,2,4), of now]
  have w: "ap_wf ?s'" by (rule ap_wf_setSpeed [OF assms(1)])
  have f: "speed ?s' = m" "isPlaying ?s'" "ap_nextHandle ?s' = Suc (ap_nextHandle s)"
    "reverse ?s' = reverse s"
    "intervals ?s' = [Interval (ap_nextHandle s) (2400 / m) (now + 2400 / m) (reverse s)]"
    using assms(2) by (simp_all add: e)
  have old: "list_all (\<lambda>x. iid x \<notin> set (map iid (intervals ?s'))) (intervals s)"
    using assms(1) f(5) by (auto simp add: ap_wf_def list_all_iff)
  have again: "intervals (setSpeed now' m' ?s') =
                [Interval (Suc (ap_nextHandle s)) (2400 / m') (now' + 2400 / m') (reverse s)]"
    if "m' \<noteq> m"
    using that f setSpeed_playing [OF w f(2), of m' now'] by simp
  show ?thesis unfolding Let_def using w f old again by simp
qed

theorem setSpeed_restarts_witness:
  "ap_wf playing \<and> isPlaying playing \<and> (0::real) < 2 \<and> 2 \<noteq> speed playing \<and>
   intervals playing = [Interval 1 2400 2400 False] \<and>
   intervals (setSpeed 1000 2 playing) = [Interval 2 1200 2200 False] \<and>
   intervals (setSpeed 1500 3 (setSpeed 1000 2 playing)) = [Interval 3 800 2300 False]"
proof -
  have w: "ap_wf playing" unfolding playing_def by (rule ap_wf_togglePlay [OF ap_wf_mounted])
  have p: "isPlaying playing" "speed playing = 1" "ap_nextHandle playing = 2"
    "\<not> reverse playing" "intervals playing = [Interval 1 2400 2400 False]"
    by (simp_all add: playing_eq)
  have n: "(0::real) < 2" "2 \<noteq> speed playing" using p(2) by simp_all
  show ?thesis
    using w p n setSpeed_restarts [OF w p(1) n, of 1000 3 1500]
    by (simp add: Let_def)
qed

text \<open>\<open>setSpeed\<close> with the speed the state already has: React runs neither the cleanup nor
  the effect, the interval started at time 0 stays, and its next tick is at 2400, not at
  1000 + 2400.\<close>

theorem setSpeed_restarts_counterexample:
  "isPlaying playing \<and> speed playing = 1 \<and>
   intervals playing = [Interval 1 2400 2400 False] \<and>
   intervals (setSpeed 1000 1 playing) = [Interval 1 2400 2400 False] \<and>
   intervals (setSpeed 1000 1 playing) \<noteq> [Interval 2 (2400 / 1) (1000 + 2400 / 1) False]"
  by (simp add: playing_eq setSpeed_def rerender_def)

section \<open>Unmount\<close>

lemma cleanup_clears:
  assumes "dl_wf s"
  shows "pending (cleanup s) = []"
    and "listeners (cleanup s) =
           filter (\<lambda>e. e \<noteq> ''mousedown'') (filter (\<lambda>e. e \<noteq> ''mousemove'') (listeners s))"
proof -
  let ?b = "s\<lparr>listeners :=
               filter (\<lambda>e. e \<noteq> ''mousedown'') (filter (\<lambda>e. e \<noteq> ''mousemove'') (listeners s))\<rparr>"
  have w: "dl_wf ?b" using assms by (simp add: dl_wf_def owned_def)
  have c: "cleanup s = clearIfSet (level3Timer ?b) (clearIfSet (level2Timer ?b)
             (clearIfSet (mouseIdleTimer ?b) ?b))"
    by (simp add: cleanup_def Let_def)
  have "cleanup s = ?b\<lparr>pending := []\<rparr>"
    unfolding c
    using clear_idle [OF w] clear_level2 [OF w] clear_level3 [OF w] all_cleared [OF w]
    by simp
  then show "pending (cleanup s) = []"
    and "listeners (cleanup s) =
           filter (\<lambda>e. e \<noteq> ''mousedown'') (filter (\<lambda>e. e \<noteq> ''mousemove'') (listeners s))"
    by simp_all
qed

lemma ap_unmount_clears:
  assumes "ap_wf s"
  shows "intervals (ap_unmount s) = []"
  using ap_wf_cases [OF assms] by (auto simp add: ap_unmount_def runCleanup_def)

text \<open>
  C7 on the code. The cleanup of \<open>useDisplayLevel\<close> removes both listeners and leaves no
  timer pending, and the cleanup of \<open>useAutoPlay\<close> clears the interval. \<open>useNotification\<close>
  has no cleanup: a notification shown at time 0 and not yet expired leaves its expiry timer
  pending through the unmount, and the timer then runs \<open>setNotification(null)\<close>.
\<close>

theorem unmount_keeps_notification_timer:
  "pending revealed = [Timer 3 4000 0] \<and>
   pending (cleanup revealed) = [] \<and> listeners (cleanup revealed) = [] \<and>
   intervals playing = [Interval 1 2400 2400 False] \<and>
   intervals (ap_unmount playing) = [] \<and>
   nt_pending (showNotification 0 ''Auto-play ON'' None nt_mounted) = [(1, 2000)] \<and>
   nt_pending (nt_unmount (showNotification 0 ''Auto-play ON'' None nt_mounted)) = [(1, 2000)] \<and>
   expire 1 (nt_unmount (showNotification 0 ''Auto-play ON'' None nt_mounted))
     = \<lparr>notification = None, notificationTimer = Some 1, nt_pending = [], nt_nextHandle = 2\<rparr>"
proof -
  have "pending (cleanup revealed) = []" "listeners (cleanup revealed) = []"
    using cleanup_clears [OF dl_wf_revealed] by (simp_all add: revealed_eq)
  moreover have "intervals (ap_unmount playing) = []"
    by (simp add: playing_eq ap_unmount_def runCleanup_def)
  ultimately show ?thesis
    by (simp add: revealed_eq playing_eq nt_unmount_def showNotification_def nt_mounted_def
        expire_def Let_def)
qed


section \<open>Properties of useImageContent\<close>

lemma count_split:
  assumes "i < length xs"
  shows "length (filter P xs) =
         length (filter P (take i xs)) + (if P (xs ! i) then 1 else 0) +
         length (filter P (drop (Suc i) xs))"
proof -
  have "xs = take i xs @ xs ! i # drop (Suc i) xs" using assms by (rule id_take_nth_drop)
  then have "filter P xs = filter P (take i xs @ xs ! i # drop (Suc i) xs)" by simp
  then show ?thesis by simp
qed

lemma settle_pages:
  assumes "i < length (awaiting s)" "expects (awaiting s ! i) r"
  shows "(case fst (resume (awaiting s ! i) r s) of
            Suspended a \<Rightarrow> pageNavigations (settle i r s) = pageNavigations s \<and>
                           isNavigating (settle i r s) = isNavigating s
          | _ \<Rightarrow> if isPageNavigation (awaiting s ! i)
                 then Suc (pageNavigations (settle i r s)) = pageNavigations s \<and>
                      \<not> isNavigating (settle i r s)
                 else pageNavigations (settle i r s) = pageNavigations s \<and>
                      isNavigating (settle i r s) = isNavigating s)"
proof -
  note c = count_split [OF assms(1), of isPageNavigation]
  show ?thesis
    using assms(2) c
    by (cases "awaiting s ! i"; cases r)
      (simp_all add: settle_def pageNavigations_def loadFailed_def)
qed


lemma nav_inv_settle:
  assumes "nav_inv s" "i < length (awaiting s)" "expects (awaiting s ! i) r"
  shows "nav_inv (settle i r s)"
proof -
  note p = settle_pages [OF assms(2,3)]
  show ?thesis
  proof (cases "fst (resume (awaiting s ! i) r s)")
    case (Suspended a)
    then show ?thesis using p assms(1) by (simp add: nav_inv_def)
  next
    case Fulfilled
    then show ?thesis using p assms(1) by (auto simp add: nav_inv_def split: if_splits)
  next
    case (Threw x)
    then show ?thesis using p assms(1) by (auto simp add: nav_inv_def split: if_splits)
  qed
qed

lemma nav_inv_step:
  assumes "nav_inv s" "ic_enabled e s"
  shows "nav_inv (ic_step e s)"
proof (cases e)
  case (Settle i r)
  then show ?thesis using assms nav_inv_settle [of s i r] by simp
qed (use assms(1) in \<open>auto simp add: nav_inv_def pageNavigations_def loadInitialScene_def
      handleNextPage_def handlePrevPage_def handleNextScene_def handlePrevScene_def Let_def\<close>)

lemma nav_inv_run: "nav_inv s \<Longrightarrow> ic_run s es = Some s' \<Longrightarrow> nav_inv s'"
proof (induction es arbitrary: s)
  case Nil
  then show ?case by simp
next
  case (Cons e es)
  from Cons.prems(2) have en: "ic_enabled e s" and rest: "ic_run (ic_step e s) es = Some s'"
    by (simp_all split: if_splits)
  show ?case by (rule Cons.IH [OF nav_inv_step [OF Cons.prems(1) en] rest])
qed

lemma nav_inv_initial: "nav_inv ic_initial"
  by (simp add: nav_inv_def pageNavigations_def ic_initial_def)

text \<open>
  C10. In every state the hook reaches from its initial state, by calls of its functions
  and settlements of the promises they await, at most one page navigation is suspended,
  and \<open>isNavigating\<close> is set exactly when one is. While it is set, \<open>handleNextPage\<close> and
  \<open>handlePrevPage\<close> return the state as it is: no command is invoked, nothing is queued,
  and \<open>imageData\<close> and \<open>sceneInfo\<close> stay. While it is not set, either of them invokes its
  command and becomes the one navigation in flight.
\<close>

theorem one_page_navigation:
  assumes "ic_run ic_initial es = Some s"
  shows "pageNavigations s \<le> 1 \<and>
         (isNavigating s \<longleftrightarrow> pageNavigations s = 1) \<and>
         (isNavigating s \<longrightarrow> handleNextPage s = s \<and> handlePrevPage s = s) \<and>
         (\<not> isNavigating s \<longrightarrow>
            pageNavigations (handleNextPage s) = 1 \<and> isNavigating (handleNextPage s) \<and>
            invoked (handleNextPage s) = invoked s @ [''next_page''] \<and>
            pageNavigations (handlePrevPage s) = 1 \<and> isNavigating (handlePrevPage s) \<and>
            invoked (handlePrevPage s) = invoked s @ [''prev_page''])"
proof -
  have i: "nav_inv s" by (rule nav_inv_run [OF nav_inv_initial assms])
  then have 1: "pageNavigations s \<le> 1" "isNavigating s \<longleftrightarrow> pageNavigations s = 1"
    by (simp_all add: nav_inv_def)
  have 2: "isNavigating s \<longrightarrow> handleNextPage s = s \<and> handlePrevPage s = s"
    by (simp add: handleNextPage_def handlePrevPage_def)
  have 3: "\<not> isNavigating s \<longrightarrow>
            pageNavigations (handleNextPage s) = 1 \<and> isNavigating (handleNextPage s) \<and>
            invoked (handleNextPage s) = invoked s @ [''next_page''] \<and>
            pageNavigations (handlePrevPage s) = 1 \<and> isNavigating (handlePrevPage s) \<and>
            invoked (handlePrevPage s) = invoked s @ [''prev_page'']"
    using i by (simp add: nav_inv_def pageNavigations_def handleNextPage_def handlePrevPage_def)
  show ?thesis using 1 2 3 by simp
qed

lemma run_navigating:
  "ic_run ic_initial
     [CallLoadInitialScene True, Settle 0 Void, Settle 0 (Info scene0), Settle 0 (Image page0),
      CallNextPage]
   = Some (navigating\<lparr>invoked := [''load_scene_collection'', ''get_scene_info'', ''get_image'',
                                   ''next_page'']\<rparr>)"
  by (simp add: ic_initial_def loadInitialScene_def settle_def navigating_def loaded_def
      handleNextPage_def Let_def)

theorem one_page_navigation_witness:
  "ic_run ic_initial
     [CallLoadInitialScene True, Settle 0 Void, Settle 0 (Info scene0), Settle 0 (Image page0),
      CallNextPage]
   = Some (navigating\<lparr>invoked := [''load_scene_collection'', ''get_scene_info'', ''get_image'',
                                   ''next_page'']\<rparr>) \<and>
   isNavigating navigating \<and> pageNavigations navigating = 1 \<and>
   handleNextPage navigating = navigating \<and> handlePrevPage navigating = navigating \<and>
   ic_run ic_initial [] = Some ic_initial \<and> \<not> isNavigating ic_initial \<and>
   isNavigating (handleNextPage ic_initial) \<and>
   invoked (handlePrevPage ic_initial) = [''prev_page'']"
proof -
  have n: "isNavigating navigating" "pageNavigations navigating = 1"
    "handleNextPage navigating = navigating" "handlePrevPage navigating = navigating"
    by (simp_all add: navigating_def loaded_def handleNextPage_def handlePrevPage_def
        pageNavigations_def)
  have e: "ic_run ic_initial [] = Some ic_initial" "\<not> isNavigating ic_initial"
    "invoked ic_initial = []"
    by (simp_all add: ic_initial_def)
  show ?thesis
    using n e run_navigating one_page_navigation [OF run_navigating]
      one_page_navigation [OF e(1)]
    by simp
qed

lemma resume_never_throws: "fst (resume a r s) \<noteq> Threw x"
  by (cases a; cases r) simp_all

lemma load_rejected:
  "isInitialLoad a \<Longrightarrow> resume a (Rejected e) s = (Fulfilled, loadFailed e s)"
  by (cases a) simp_all

lemma navigation_rejected:
  assumes "\<not> isInitialLoad a"
  shows "fst (resume a (Rejected e) s) = Fulfilled"
    and "ui (snd (resume a (Rejected e) s)) = ui s"
    and "length (consoleErrors (snd (resume a (Rejected e) s))) = Suc (length (consoleErrors s))"
  using assms by (cases a; simp add: ui_def)+

text \<open>
  C8, as the code has it. No step of any handler throws: a rejected promise ends the
  handler normally. A rejection at any \<open>await\<close> of \<open>loadInitialScene\<close> sets the error
  message and ends the loading state. A rejection at any \<open>await\<close> of a navigation handler
  is written to the console only, and the \<open>catch\<close> changes none of \<open>imageData\<close>,
  \<open>sceneInfo\<close>, \<open>loading\<close>, \<open>error\<close>. So when the navigation command itself is rejected,
  the four are as they were before the handler was called; when the call that follows it
  is rejected, the result of the navigation command has been stored already and stays.
\<close>

theorem failures_are_caught:
  "fst (resume a r s) \<noteq> Threw x \<and>
   (isInitialLoad a \<longrightarrow>
      resume a (Rejected e) s = (Fulfilled, loadFailed e s) \<and>
      error (loadFailed e s) = Some (''Failed to load scene: '' @ e) \<and>
      loading (loadFailed e s) = False) \<and>
   (\<not> isInitialLoad a \<longrightarrow>
      fst (resume a (Rejected e) s) = Fulfilled \<and>
      ui (snd (resume a (Rejected e) s)) = ui s \<and>
      length (consoleErrors (snd (resume a (Rejected e) s))) = Suc (length (consoleErrors s))) \<and>
   (\<not> isNavigating s \<longrightarrow>
      ui (snd (resume (PageData Next) (Rejected e) (handleNextPage s))) = ui s \<and>
      ui (snd (resume (PageData Prev) (Rejected e) (handlePrevPage s))) = ui s) \<and>
   ui (snd (resume (SceneStep Next) (Rejected e) (handleNextScene s))) = ui s \<and>
   ui (snd (resume (SceneStep Prev) (Rejected e) (handlePrevScene s))) = ui s \<and>
   ui (snd (resume (PageInfo d) (Rejected e) (snd (resume (PageData d) (Image i) s))))
     = (Some i, sceneInfo s, loading s, error s) \<and>
   ui (snd (resume (SceneImage d) (Rejected e) (snd (resume (SceneStep d) (Info n) s))))
     = (imageData s, Some n, loading s, error s)"
proof -
  have 1: "isInitialLoad a \<longrightarrow>
      resume a (Rejected e) s = (Fulfilled, loadFailed e s) \<and>
      error (loadFailed e s) = Some (''Failed to load scene: '' @ e) \<and>
      loading (loadFailed e s) = False"
    by (simp add: load_rejected loadFailed_def)
  have 2: "\<not> isInitialLoad a \<longrightarrow>
      fst (resume a (Rejected e) s) = Fulfilled \<and>
      ui (snd (resume a (Rejected e) s)) = ui s \<and>
      length (consoleErrors (snd (resume a (Rejected e) s))) = Suc (length (consoleErrors s))"
    using navigation_rejected [of a e s] by simp
  have 3: "\<not> isNavigating s \<longrightarrow>
      ui (snd (resume (PageData Next) (Rejected e) (handleNextPage s))) = ui s \<and>
      ui (snd (resume (PageData Prev) (Rejected e) (handlePrevPage s))) = ui s"
    by (simp add: handleNextPage_def handlePrevPage_def ui_def)
  have 4: "ui (snd (resume (SceneStep Next) (Rejected e) (handleNextScene s))) = ui s"
    "ui (snd (resume (SceneStep Prev) (Rejected e) (handlePrevScene s))) = ui s"
    by (simp_all add: handleNextScene_def handlePrevScene_def ui_def)
  have 5: "ui (snd (resume (PageInfo d) (Rejected e) (snd (resume (PageData d) (Image i) s))))
     = (Some i, sceneInfo s, loading s, error s)"
    "ui (snd (resume (SceneImage d) (Rejected e) (snd (resume (SceneStep d) (Info n) s))))
     = (imageData s, Some n, loading s, error s)"
    by (simp_all add: ui_def)
  show ?thesis using resume_never_throws [of a r s x] 1 2 3 4 5 by simp
qed

theorem failures_are_caught_witness:
  "isInitialLoad LoadCollection \<and>
   resume LoadCollection (Rejected ''no such directory'') (loadInitialScene True ic_initial)
     = (Fulfilled, loadFailed ''no such directory'' (loadInitialScene True ic_initial)) \<and>
   error (loadFailed ''no such directory'' (loadInitialScene True ic_initial))
     = Some ''Failed to load scene: no such directory'' \<and>
   \<not> loading (loadFailed ''no such directory'' (loadInitialScene True ic_initial)) \<and>
   \<not> isInitialLoad (PageInfo Next) \<and>
   ui (snd (resume (PageInfo Next) (Rejected ''offline'') loaded)) = ui loaded \<and>
   \<not> isNavigating loaded \<and>
   ui (snd (resume (PageData Next) (Rejected ''offline'') (handleNextPage loaded))) = ui loaded \<and>
   ui (snd (resume (PageData Prev) (Rejected ''offline'') (handlePrevPage loaded))) = ui loaded"
proof -
  have a: "isInitialLoad LoadCollection" "\<not> isInitialLoad (PageInfo Next)"
    "\<not> isNavigating loaded"
    by (simp_all add: loaded_def)
  show ?thesis
    using a
      failures_are_caught [of LoadCollection Void "loadInitialScene True ic_initial" "''''"
        "''no such directory''" Next page0 scene0]
      failures_are_caught [of "PageInfo Next" Void loaded "''''" "''offline''" Next page0 scene0]
    by simp
qed

text \<open>\<open>next_page\<close> succeeds and \<open>get_scene_info\<close> after it fails: the image shown has
  changed although the navigation failed.\<close>

theorem failures_are_caught_counterexample:
  "ui loaded = (Some page0, Some scene0, False, None) \<and>
   map_option ui
     (ic_run loaded [CallNextPage, Settle 0 (Image page1), Settle 0 (Rejected ''offline'')])
     = Some (Some page1, Some scene0, False, None) \<and>
   page1 \<noteq> page0"
  by (simp add: loaded_def handleNextPage_def settle_def ui_def page0_def page1_def)

end
